theory Spec2Isabelle
  imports Complex_Main "HOL-Library.Word"
begin

unbundle bit_operations_syntax

section \<open>Bytes and buffers\<close>

text \<open>
  A \<^verbatim>\<open>Buffer\<close> or \<^verbatim>\<open>Uint8Array\<close> is a list of 8-bit words. Node's
  \<^verbatim>\<open>readUInt8\<close> and \<^verbatim>\<open>readUInt32BE\<close> throw a range error when the read leaves
  the buffer; \<^verbatim>\<open>subarray\<close> clamps its indices instead.
\<close>

type_synonym byte = "8 word"

text \<open>What the code can throw: Node's range error, an exception of the SPS parsing
  library, a rejected \<^verbatim>\<open>fetch\<close> (network failure, abort on timeout), the error raised
  by \<^verbatim>\<open>WDAClient.request\<close> on a response that is not ok (status and body text), a
  response body that is not JSON, the type error of reading a property of \<^verbatim>\<open>null\<close>, and
  the missing session id of \<^verbatim>\<open>createSession\<close>.\<close>

datatype error =
    RangeError
  | SPSParseError
  | FetchRejected
  | WDARequestFailed nat string
  | BadResponseBody
  | TypeError
  | NoSessionId

definition readUInt8 :: "byte list \<Rightarrow> nat \<Rightarrow> error + byte" where
  "readUInt8 buf off = (if off < length buf then Inr (buf ! off) else Inl RangeError)"

definition readUInt32BE :: "byte list \<Rightarrow> nat \<Rightarrow> error + nat" where
  "readUInt32BE buf off =
     (if off + 4 \<le> length buf
      then Inr (unat (buf ! off) * 16777216 + unat (buf ! (off + 1)) * 65536
                + unat (buf ! (off + 2)) * 256 + unat (buf ! (off + 3)))
      else Inl RangeError)"

definition subarray :: "byte list \<Rightarrow> nat \<Rightarrow> nat \<Rightarrow> byte list" where
  "subarray buf start end = drop start (take end buf)"

definition subarray_from :: "byte list \<Rightarrow> nat \<Rightarrow> byte list" where
  "subarray_from buf start = drop start buf"

text \<open>Indexing a typed array, \<^verbatim>\<open>data[i]\<close>: \<^verbatim>\<open>undefined\<close> (here \<open>None\<close>) out of range.
  \<^verbatim>\<open>undefined === 0\<close> is false and \<^verbatim>\<open>undefined & m\<close>, \<^verbatim>\<open>undefined >> k\<close> are 0.\<close>

definition elem :: "byte list \<Rightarrow> nat \<Rightarrow> byte option" where
  "elem data i = (if i < length data then Some (data ! i) else None)"

definition to_int32 :: "byte option \<Rightarrow> byte" where
  "to_int32 v = (case v of None \<Rightarrow> 0 | Some b \<Rightarrow> b)"

section \<open>JavaScript numbers\<close>

text \<open>
  A JavaScript number is an IEEE 754 double. A finite double is a real number with a
  significand of 53 bits, and every arithmetic operation returns the exact result rounded
  to the nearest double, the one with the even significand when two are equally near:
  \<open>rnd\<close>. The binary exponent of \<open>x\<close> is the largest \<open>e\<close> from -1022 to 1023 with
  \<open>pow2 e \<le> \<bar>x\<bar>\<close>, and -1022 when there is none (\<open>binade\<close> looks for it from 1023
  downwards). Around \<open>x\<close> the doubles are \<open>ulp x\<close> apart, the power of two that is 52 places
  below the binary exponent of \<open>x\<close>. \<^verbatim>\<open>NaN\<close>, the infinities and results beyond the
  largest double are left out: the numbers of the model are the finite ones.
\<close>

definition pow2 :: "int \<Rightarrow> real" where
  "pow2 e = (if 0 \<le> e then 2 ^ nat e else 1 / 2 ^ nat (- e))"

definition round_even :: "real \<Rightarrow> int" where
  "round_even y =
     (let f = \<lfloor>y\<rfloor>; d = y - of_int f
      in if d < 1 / 2 then f else if 1 / 2 < d then f + 1 else if even f then f else f + 1)"

fun binade_from :: "nat \<Rightarrow> real \<Rightarrow> int" where
  "binade_from 0 a = - 1022"
| "binade_from (Suc n) a = (if pow2 (int n - 1021) \<le> a then int n - 1021 else binade_from n a)"

definition binade :: "real \<Rightarrow> int" where
  "binade x = binade_from 2045 \<bar>x\<bar>"

definition ulp :: "real \<Rightarrow> real" where
  "ulp x = pow2 (binade x - 52)"

definition rnd :: "real \<Rightarrow> real" where
  "rnd x = (if x = 0 then 0 else of_int (round_even (x / ulp x)) * ulp x)"

text \<open>The operators \<^verbatim>\<open>+\<close>, \<^verbatim>\<open>-\<close>, \<^verbatim>\<open>*\<close> and \<^verbatim>\<open>/\<close>; \<^verbatim>\<open>Math.pow\<close> is called
  with the exponent 2 only, where it is the rounded square. Negation, \<^verbatim>\<open>Math.abs\<close>,
  \<^verbatim>\<open>Math.min\<close>, \<^verbatim>\<open>Math.max\<close> and the comparisons are exact. A decimal literal such
  as \<^verbatim>\<open>0.0001\<close> is the double nearest to it.\<close>

definition js_add :: "real \<Rightarrow> real \<Rightarrow> real" where
  "js_add a b = rnd (a + b)"

definition js_sub :: "real \<Rightarrow> real \<Rightarrow> real" where
  "js_sub a b = rnd (a - b)"

definition js_mul :: "real \<Rightarrow> real \<Rightarrow> real" where
  "js_mul a b = rnd (a * b)"

definition js_div :: "real \<Rightarrow> real \<Rightarrow> real" where
  "js_div a b = rnd (a / b)"

definition Math_pow :: "real \<Rightarrow> nat \<Rightarrow> real" where
  "Math_pow a n = rnd (a ^ n)"

text \<open>
  \<^verbatim>\<open>Math.sqrt\<close> gives the double nearest to the square root: \<open>rnd (sqrt a)\<close>, as is
  proved below. It is computed on whole numbers: the binary exponent of the root is found
  from the number itself, and the root, counted in units of the spacing of the doubles, is
  rounded by comparing the number with the squares of the whole number below the root and
  of the half above it. (The square root of a negative number is \<^verbatim>\<open>NaN\<close>, which the
  model leaves out.)
\<close>

function bit_count :: "int \<Rightarrow> nat" where
  "bit_count n = (if n \<le> 0 then 0 else Suc (bit_count (n div 2)))"
  by pat_completeness auto
termination
  by (relation "measure nat") auto

declare bit_count.simps [simp del]

fun isqrt_from :: "nat \<Rightarrow> int \<Rightarrow> int \<Rightarrow> int" where
  "isqrt_from 0 n r = r"
| "isqrt_from (Suc b) n r =
     (if (r + 2 ^ b) * (r + 2 ^ b) \<le> n then isqrt_from b n (r + 2 ^ b) else isqrt_from b n r)"

definition isqrt :: "int \<Rightarrow> int" where
  "isqrt n = isqrt_from (bit_count n) n 0"

fun sqrt_binade_from :: "nat \<Rightarrow> real \<Rightarrow> int" where
  "sqrt_binade_from 0 a = - 1022"
| "sqrt_binade_from (Suc n) a =
     (if pow2 (2 * (int n - 1021)) \<le> a then int n - 1021 else sqrt_binade_from n a)"

definition Math_sqrt :: "real \<Rightarrow> real" where
  "Math_sqrt a =
     (if a \<le> 0 then 0
      else (let u = pow2 (sqrt_binade_from 2045 a - 52);
                q = a / (u * u);
                k = isqrt \<lfloor>q\<rfloor>;
                h = (of_int k + 1 / 2) * (of_int k + 1 / 2)
            in of_int (if q < h then k else if h < q then k + 1 else if even k then k else k + 1) * u))"

text \<open>\<^verbatim>\<open>Math.round\<close> gives the nearest integer, the higher one of two equally near.\<close>

definition js_round :: "real \<Rightarrow> int" where
  "js_round x = \<lfloor>x + 1 / 2\<rfloor>"

section \<open>iOSConnection: framing of the helper's stdout\<close>

text \<open>
  \<^verbatim>\<open>src/ios/iOSConnection.ts\<close>. A message handed to \<^verbatim>\<open>processMessage\<close> is its type
  byte and its payload. The connection keeps the bytes not yet consumed in
  \<^verbatim>\<open>messageBuffer\<close>.
\<close>

type_synonym message = "byte \<times> byte list"

record iOSConnection =
  messageBuffer :: "byte list"

text \<open>
  The \<^verbatim>\<open>while\<close> loop of \<^verbatim>\<open>handleHelperData\<close>: \<open>acc\<close> collects the calls of
  \<^verbatim>\<open>processMessage\<close> in the order they are made.
\<close>

function processLoop :: "byte list \<Rightarrow> message list \<Rightarrow> error + (message list \<times> byte list)" where
  "processLoop buf acc =
     (if 5 \<le> length buf then
        (case readUInt8 buf 0 of
           Inl e \<Rightarrow> Inl e
         | Inr ty \<Rightarrow>
            (case readUInt32BE buf 1 of
               Inl e \<Rightarrow> Inl e
             | Inr len \<Rightarrow>
                 if length buf < 5 + len then Inr (acc, buf)
                 else processLoop (subarray_from buf (5 + len))
                                  (acc @ [(ty, subarray buf 5 (5 + len))])))
      else Inr (acc, buf))"
  by pat_completeness auto
termination
  by (relation "measure (\<lambda>(buf, acc). length buf)") (auto simp: subarray_from_def)

declare processLoop.simps [simp del]

definition handleHelperData ::
  "byte list \<Rightarrow> iOSConnection \<Rightarrow> error + (message list \<times> iOSConnection)" where
  "handleHelperData chunk c =
     (case processLoop (messageBuffer c @ chunk) [] of
        Inl e \<Rightarrow> Inl e
      | Inr (ms, buf) \<Rightarrow> Inr (ms, c\<lparr>messageBuffer := buf\<rparr>))"

text \<open>The stdout \<^verbatim>\<open>data\<close> handler run on successive chunks; the deliveries are
  concatenated in the order they happen.\<close>

fun handleHelperDataAll ::
  "byte list list \<Rightarrow> iOSConnection \<Rightarrow> error + (message list \<times> iOSConnection)" where
  "handleHelperDataAll [] c = Inr ([], c)"
| "handleHelperDataAll (chunk # chunks) c =
     (case handleHelperData chunk c of
        Inl e \<Rightarrow> Inl e
      | Inr (ms, c') \<Rightarrow>
          (case handleHelperDataAll chunks c' of
             Inl e \<Rightarrow> Inl e
           | Inr (ms', c'') \<Rightarrow> Inr (ms @ ms', c'')))"

text \<open>
  The sender's side, \<^verbatim>\<open>writeMessage\<close> of \<^verbatim>\<open>native/ios-helper/mock-helper.js\<close>:
  one type byte, the payload length as four big-endian bytes, the payload.
\<close>

definition writeUInt32BE :: "nat \<Rightarrow> byte list" where
  "writeUInt32BE n =
     [of_nat (n div 16777216), of_nat (n div 65536), of_nat (n div 256), of_nat n]"

definition writeMessage :: "message \<Rightarrow> byte list" where
  "writeMessage m = fst m # writeUInt32BE (length (snd m)) @ snd m"

definition valid_message :: "message \<Rightarrow> bool" where
  "valid_message m \<longleftrightarrow> length (snd m) < 4294967296"

section \<open>CodecUtils: scanning a bitstream for NAL units\<close>

text \<open>
  \<^verbatim>\<open>src/webview/CodecUtils.ts\<close>. The four scanning loops run \<^verbatim>\<open>i\<close> from 0 while
  \<^verbatim>\<open>i < data.length - 4\<close>; the bound is a JavaScript number and may be negative, so it is
  compared on integers.
\<close>

datatype VideoCodec = H264 | H265 | AV1

text \<open>\<^verbatim>\<open>H264NALUnitType\<close> and \<^verbatim>\<open>H265NALUnitType\<close>.\<close>

definition H264_IDR :: byte where "H264_IDR = 5"
definition H264_SPS :: byte where "H264_SPS = 7"
definition H264_PPS :: byte where "H264_PPS = 8"
definition H265_VPS :: byte where "H265_VPS = 32"
definition H265_SPS :: byte where "H265_SPS = 33"
definition H265_PPS :: byte where "H265_PPS = 34"
definition H265_IDR_W_RADL :: byte where "H265_IDR_W_RADL = 19"
definition H265_IDR_N_LP :: byte where "H265_IDR_N_LP = 20"

text \<open>The start-code tests as the loops write them.\<close>

definition sc3 :: "byte list \<Rightarrow> nat \<Rightarrow> bool" where
  "sc3 data i \<longleftrightarrow> elem data i = Some 0 \<and> elem data (i + 1) = Some 0 \<and> elem data (i + 2) = Some 1"

definition sc4 :: "byte list \<Rightarrow> nat \<Rightarrow> bool" where
  "sc4 data i \<longleftrightarrow> elem data i = Some 0 \<and> elem data (i + 1) = Some 0 \<and> elem data (i + 2) = Some 0
                  \<and> elem data (i + 3) = Some 1"

function containsH264IDR_loop :: "byte list \<Rightarrow> nat \<Rightarrow> bool" where
  "containsH264IDR_loop data i =
     (if int i < int (length data) - 4 then
        (if sc3 data i \<or> sc4 data i then
           (let offset = (if elem data (i + 2) = Some 1 then 3 else 4);
                nalType = to_int32 (elem data (i + offset)) AND 0x1f
            in if nalType = H264_IDR then True else containsH264IDR_loop data (i + 1))
         else containsH264IDR_loop data (i + 1))
      else False)"
  by pat_completeness auto
termination
  by (relation "measure (\<lambda>(data, i). length data - i)") auto

declare containsH264IDR_loop.simps [simp del]

definition containsH264IDR :: "byte list \<Rightarrow> bool" where
  "containsH264IDR data = containsH264IDR_loop data 0"

function containsH265IDR_loop :: "byte list \<Rightarrow> nat \<Rightarrow> bool" where
  "containsH265IDR_loop data i =
     (if int i < int (length data) - 4 then
        (if sc3 data i \<or> sc4 data i then
           (let offset = (if elem data (i + 2) = Some 1 then 3 else 4);
                nalType = drop_bit 1 (to_int32 (elem data (i + offset))) AND 0x3f
            in if nalType = H265_IDR_W_RADL \<or> nalType = H265_IDR_N_LP then True
               else containsH265IDR_loop data (i + 1))
         else containsH265IDR_loop data (i + 1))
      else False)"
  by pat_completeness auto
termination
  by (relation "measure (\<lambda>(data, i). length data - i)") auto

declare containsH265IDR_loop.simps [simp del]

definition containsH265IDR :: "byte list \<Rightarrow> bool" where
  "containsH265IDR data = containsH265IDR_loop data 0"

definition containsKeyFrame :: "byte list \<Rightarrow> VideoCodec \<Rightarrow> bool" where
  "containsKeyFrame data codec =
     (case codec of
        H264 \<Rightarrow> containsH264IDR data
      | H265 \<Rightarrow> containsH265IDR data
      | AV1 \<Rightarrow> False)"

function findH264SPS_loop :: "byte list \<Rightarrow> nat \<Rightarrow> byte list option" where
  "findH264SPS_loop config i =
     (if int i < int (length config) - 4 then
        (let offset = (if sc3 config i then 3 else if sc4 config i then 4 else (0::nat))
         in if 0 < offset \<and> to_int32 (elem config (i + offset)) AND 0x1f = H264_SPS
            then Some (subarray_from config (i + offset))
            else findH264SPS_loop config (i + 1))
      else None)"
  by pat_completeness auto
termination
  by (relation "measure (\<lambda>(config, i). length config - i)") auto

declare findH264SPS_loop.simps [simp del]

definition findH264SPS :: "byte list \<Rightarrow> byte list option" where
  "findH264SPS config = findH264SPS_loop config 0"

function findH265ConfigNAL_loop :: "byte list \<Rightarrow> nat \<Rightarrow> bool" where
  "findH265ConfigNAL_loop config i =
     (if int i < int (length config) - 4 then
        (let offset = (if sc3 config i then 3 else if sc4 config i then 4 else (0::nat));
             nalType = drop_bit 1 (to_int32 (elem config (i + offset))) AND 0x3f
         in if 0 < offset \<and> (nalType = H265_VPS \<or> nalType = H265_SPS \<or> nalType = H265_PPS)
            then True
            else findH265ConfigNAL_loop config (i + 1))
      else False)"
  by pat_completeness auto
termination
  by (relation "measure (\<lambda>(config, i). length config - i)") auto

declare findH265ConfigNAL_loop.simps [simp del]

definition findH265ConfigNAL :: "byte list \<Rightarrow> bool" where
  "findH265ConfigNAL config = findH265ConfigNAL_loop config 0"

definition detectCodec :: "byte list \<Rightarrow> VideoCodec option" where
  "detectCodec config =
     (if findH264SPS config \<noteq> None then Some H264
      else if findH265ConfigNAL config then Some H265
      else None)"

subsection \<open>Dimensions from the H.264 sequence parameter set\<close>

text \<open>
  \<^verbatim>\<open>parse\<close> of the package \<^verbatim>\<open>h264-sps-parser\<close> is not code of this repository: it is a
  parameter \<open>parseSPS\<close> of the model, returning the parsed fields or the exception it
  throws. Of its result the code reads the fields below; they are integers, and
  a flag is true when it is not 0.
\<close>

record frame_cropping_rec =
  left :: int
  right :: int
  top' :: int
  bottom :: int

record sps_info =
  frame_mbs_only_flag :: int
  pic_width_in_mbs :: int
  pic_height_in_map_units :: int
  frame_cropping_flag :: int
  frame_cropping :: frame_cropping_rec
  chroma_format_idc :: int

record dimensions =
  width :: int
  height :: int

definition dimensions_of_sps :: "sps_info \<Rightarrow> dimensions" where
  "dimensions_of_sps sps =
     (let frameMbsOnly = frame_mbs_only_flag sps;
          w = pic_width_in_mbs sps * 16;
          h = pic_height_in_map_units sps * 16 * (2 - frameMbsOnly);
          (cropX, cropY) =
            (if frame_cropping_flag sps \<noteq> 0 then
               (let crop = frame_cropping sps;
                    (subWidthC, subHeightC) =
                      (if chroma_format_idc sps = 2 then (2, 1)
                       else if chroma_format_idc sps = 3 then (1, 1)
                       else (2, 2));
                    cropUnitX = subWidthC;
                    cropUnitY = subHeightC * (2 - frameMbsOnly)
                in ((left crop + right crop) * cropUnitX, (top' crop + bottom crop) * cropUnitY))
             else (0, 0))
      in \<lparr>width = w - cropX, height = h - cropY\<rparr>)"

text \<open>The \<^verbatim>\<open>try\<close> block of \<^verbatim>\<open>parseH264SPSDimensions\<close> is \<open>dimensions_of_sps\<close> after
  the library call; the \<^verbatim>\<open>catch\<close> turns every exception into \<^verbatim>\<open>null\<close>.\<close>

definition parseH264SPSDimensions ::
  "(byte list \<Rightarrow> error + sps_info) \<Rightarrow> byte list \<Rightarrow> dimensions option" where
  "parseH264SPSDimensions parseSPS config =
     (case findH264SPS config of
        None \<Rightarrow> None
      | Some spsData \<Rightarrow>
          (case parseSPS spsData of
             Inl e \<Rightarrow> None
           | Inr sps \<Rightarrow> Some (dimensions_of_sps sps)))"

text \<open>
  The words of the specification, to compare the code with. A unit of type \<open>t\<close> follows a
  start code when the bytes \<^verbatim>\<open>00 00 01\<close> or \<^verbatim>\<open>00 00 00 01\<close> stand somewhere in the buffer and
  the byte after them has the type field \<open>t\<close>: its low five bits for H.264, its bits 1 to 6
  for H.265.
\<close>

definition h264_type :: "byte \<Rightarrow> byte" where
  "h264_type b = b AND 0x1f"

definition h265_type :: "byte \<Rightarrow> byte" where
  "h265_type b = drop_bit 1 b AND 0x3f"

definition unit_at :: "(byte \<Rightarrow> byte) \<Rightarrow> byte list \<Rightarrow> nat \<Rightarrow> byte option" where
  "unit_at ty data i =
     (if sc3 data i then map_option ty (elem data (i + 3))
      else if sc4 data i then map_option ty (elem data (i + 4))
      else None)"

definition contains_unit :: "(byte \<Rightarrow> byte) \<Rightarrow> byte list \<Rightarrow> byte \<Rightarrow> bool" where
  "contains_unit ty data t \<longleftrightarrow> (\<exists>i < length data. unit_at ty data i = Some t)"

definition has_start_code :: "byte list \<Rightarrow> bool" where
  "has_start_code data \<longleftrightarrow> (\<exists>i < length data. sc3 data i \<or> sc4 data i)"

text \<open>The SPS unit that the scan meets first: the start code at \<open>j\<close> begins at least five
  bytes before the end of the buffer, the type of the unit after it is 7, and no
  position before \<open>j\<close> is such. Its bytes are those from its header to the end of the
  buffer.\<close>

definition first_sps_at :: "byte list \<Rightarrow> nat \<Rightarrow> bool" where
  "first_sps_at config j \<longleftrightarrow>
     int j < int (length config) - 4 \<and> unit_at h264_type config j = Some H264_SPS
     \<and> (\<forall>k < j. unit_at h264_type config k \<noteq> Some H264_SPS)"

definition unit_bytes :: "byte list \<Rightarrow> nat \<Rightarrow> byte list" where
  "unit_bytes config j = drop (j + (if sc3 config j then 3 else 4)) config"

text \<open>The crop units of the specification: \<open>(SubWidthC, SubHeightC)\<close> by chroma format.\<close>

definition SubWidthC :: "int \<Rightarrow> int" where
  "SubWidthC idc = (if idc = 3 then 1 else 2)"

definition SubHeightC :: "int \<Rightarrow> int" where
  "SubHeightC idc = (if idc = 2 \<or> idc = 3 then 1 else 2)"

text \<open>The fixture \<^verbatim>\<open>H264_SPS_1920x1080\<close> of \<^verbatim>\<open>test/fixtures/h264-samples.ts\<close>, and the
  fields of a 1920x1080 stream: 120 by 68 macroblocks, frames only, eight luma rows cropped
  at the bottom.\<close>

definition H264_SPS_1920x1080 :: "byte list" where
  "H264_SPS_1920x1080 =
     [0x00, 0x00, 0x00, 0x01, 0x67, 0x64, 0x00, 0x28,
      0xac, 0xd9, 0x40, 0x78, 0x02, 0x27, 0xe5, 0xc0, 0x44, 0x00, 0x00, 0x03, 0x00, 0x04, 0x00, 0x00,
      0x03, 0x00, 0xf0, 0x3c, 0x60, 0xc6, 0x58]"

definition sps_1920x1080 :: sps_info where
  "sps_1920x1080 =
     \<lparr>frame_mbs_only_flag = 1, pic_width_in_mbs = 120, pic_height_in_map_units = 68,
      frame_cropping_flag = 1,
      frame_cropping = \<lparr>left = 0, right = 0, top' = 0, bottom = 4\<rparr>,
      chroma_format_idc = 1\<rparr>"

section \<open>WDAClient: the alternate control session\<close>

text \<open>
  \<^verbatim>\<open>WDAClient\<close> (the HTTP client of WebDriverAgent). Every call is awaited before the
  next is called, so a call is a function from the client and the world to a result, the
  client and the world. The world is the list of HTTP requests issued so far; the remote
  end is a parameter \<open>srv\<close> that answers the request just issued, knowing all requests
  before it.
\<close>

datatype TouchAction = Down | Move | Up

text \<open>One step of a W3C pointer action chain, as \<^verbatim>\<open>performTap\<close> and \<^verbatim>\<open>performSwipe\<close>
  write them.\<close>

datatype pointer_action =
    PointerMove int int int
  | PointerDown int
  | Pause int
  | PointerUp int

text \<open>The request bodies the client sends: the capabilities of \<^verbatim>\<open>createSession\<close>, one
  touch pointer \<^verbatim>\<open>finger1\<close> with its chain, a scroll direction and distance, the
  characters of \<^verbatim>\<open>typeText\<close>, a button name.\<close>

datatype request_body =
    Capabilities
  | Actions "pointer_action list"
  | ScrollBody string real
  | KeysBody "string list"
  | ButtonBody string

record http_request =
  http_method :: string
  url :: string
  body :: "request_body option"

text \<open>What \<^verbatim>\<open>fetch\<close> brings back: a rejection (network failure, or the abort of the
  timeout), a response that is not ok with its status and text, a body that is not JSON,
  or the JSON value. Of a JSON value the client reads \<^verbatim>\<open>value.sessionId\<close> and
  \<^verbatim>\<open>sessionId\<close> only; \<open>JNull\<close> is the value \<^verbatim>\<open>null\<close>, of which no property can be read.\<close>

datatype json = JNull | JObject "string option" "string option"

datatype response =
    FetchRejects
  | NotOk nat string
  | JsonRejects
  | OkJson json

type_synonym server = "http_request list \<Rightarrow> response"

record WDAClient =
  baseUrl :: string
  sessionId :: "string option"
  touchActive :: bool
  touchStartX :: real
  touchStartY :: real

type_synonym world = "http_request list"

type_synonym 'a call = "WDAClient \<times> world \<Rightarrow> (error + 'a) \<times> WDAClient \<times> world"

text \<open>A string is truthy when it is there and not empty.\<close>

definition truthy :: "string option \<Rightarrow> bool" where
  "truthy v = (case v of None \<Rightarrow> False | Some s \<Rightarrow> s \<noteq> [])"

definition request :: "server \<Rightarrow> string \<Rightarrow> string \<Rightarrow> request_body option \<Rightarrow> json call" where
  "request srv m path b = (\<lambda>(c, w).
     (let w' = w @ [\<lparr>http_method = m, url = baseUrl c @ path, body = b\<rparr>]
      in case srv w' of
           FetchRejects \<Rightarrow> (Inl FetchRejected, c, w')
         | NotOk status errorText \<Rightarrow> (Inl (WDARequestFailed status errorText), c, w')
         | JsonRejects \<Rightarrow> (Inl BadResponseBody, c, w')
         | OkJson data \<Rightarrow> (Inr data, c, w')))"

text \<open>\<^verbatim>\<open>await this.request(...)\<close> where the answer is not read.\<close>

definition request_unit ::
  "server \<Rightarrow> string \<Rightarrow> string \<Rightarrow> request_body option \<Rightarrow> unit call" where
  "request_unit srv m path b = (\<lambda>(c, w).
     (case request srv m path b (c, w) of
        (Inl e, c', w') \<Rightarrow> (Inl e, c', w')
      | (Inr data, c', w') \<Rightarrow> (Inr (), c', w')))"

definition createSession :: "server \<Rightarrow> string call" where
  "createSession srv = (\<lambda>(c, w).
     (case request srv ''POST'' ''/session'' (Some Capabilities) (c, w) of
        (Inl e, c', w') \<Rightarrow> (Inl e, c', w')
      | (Inr JNull, c', w') \<Rightarrow> (Inl TypeError, c', w')
      | (Inr (JObject valueSessionId topSessionId), c', w') \<Rightarrow>
          (let sid = (if truthy valueSessionId then valueSessionId else topSessionId)
           in if \<not> truthy sid then (Inl NoSessionId, c', w')
              else (Inr (the sid), c'\<lparr>sessionId := sid\<rparr>, w'))))"

definition ensureSession :: "server \<Rightarrow> string call" where
  "ensureSession srv = (\<lambda>(c, w).
     if truthy (sessionId c) then (Inr (the (sessionId c)), c, w)
     else createSession srv (c, w))"

definition performTap :: "server \<Rightarrow> string \<Rightarrow> real \<Rightarrow> real \<Rightarrow> unit call" where
  "performTap srv sid x y =
     request_unit srv ''POST'' (''/session/'' @ sid @ ''/actions'')
       (Some (Actions [PointerMove 0 (js_round x) (js_round y), PointerDown 0,
                       Pause 50, PointerUp 0]))"

definition performSwipe ::
  "server \<Rightarrow> string \<Rightarrow> real \<Rightarrow> real \<Rightarrow> real \<Rightarrow> real \<Rightarrow> int \<Rightarrow> unit call" where
  "performSwipe srv sid startX startY endX endY durationMs =
     request_unit srv ''POST'' (''/session/'' @ sid @ ''/actions'')
       (Some (Actions [PointerMove 0 (js_round startX) (js_round startY), PointerDown 0,
                       PointerMove durationMs (js_round endX) (js_round endY),
                       PointerUp 0]))"

definition touch :: "server \<Rightarrow> TouchAction \<Rightarrow> real \<Rightarrow> real \<Rightarrow> unit call" where
  "touch srv action x y = (\<lambda>(c, w).
     (case ensureSession srv (c, w) of
        (Inl e, c', w') \<Rightarrow> (Inl e, c', w')
      | (Inr sid, c', w') \<Rightarrow>
          if action = Down then
            (Inr (), c'\<lparr>touchActive := True, touchStartX := x, touchStartY := y\<rparr>, w')
          else if action = Move \<and> touchActive c' then (Inr (), c', w')
          else if action = Up \<and> touchActive c' then
            (let c'' = c'\<lparr>touchActive := False\<rparr>;
                 distance = Math_sqrt (js_add (Math_pow (js_sub x (touchStartX c'')) 2)
                                              (Math_pow (js_sub y (touchStartY c'')) 2))
             in if distance < 10
                then performTap srv sid (touchStartX c'') (touchStartY c'') (c'', w')
                else performSwipe srv sid (touchStartX c'') (touchStartY c'') x y 200 (c'', w'))
          else (Inr (), c', w')))"

definition scroll :: "server \<Rightarrow> real \<Rightarrow> real \<Rightarrow> real \<Rightarrow> real \<Rightarrow> unit call" where
  "scroll srv x y deltaX deltaY = (\<lambda>(c, w).
     (case ensureSession srv (c, w) of
        (Inl e, c', w') \<Rightarrow> (Inl e, c', w')
      | (Inr sid, c', w') \<Rightarrow>
          (let absX = \<bar>deltaX\<bar>; absY = \<bar>deltaY\<bar>
           in if absX \<le> absY \<and> rnd (1 / 1000) < absY then
                request_unit srv ''POST'' (''/session/'' @ sid @ ''/wda/scroll'')
                  (Some (ScrollBody (if 0 < deltaY then ''up'' else ''down'')
                                    (min (1 / 2) (js_mul absY 2)))) (c', w')
              else if rnd (1 / 1000) < absX then
                request_unit srv ''POST'' (''/session/'' @ sid @ ''/wda/scroll'')
                  (Some (ScrollBody (if 0 < deltaX then ''left'' else ''right'')
                                    (min (1 / 2) (js_mul absX 2)))) (c', w')
              else (Inr (), c', w'))))"

text \<open>\<^verbatim>\<open>text.split('')\<close> gives the characters one by one.\<close>

definition typeText :: "server \<Rightarrow> string \<Rightarrow> unit call" where
  "typeText srv text = (\<lambda>(c, w).
     (case ensureSession srv (c, w) of
        (Inl e, c', w') \<Rightarrow> (Inl e, c', w')
      | (Inr sid, c', w') \<Rightarrow>
          request_unit srv ''POST'' (''/session/'' @ sid @ ''/wda/keys'')
            (Some (KeysBody (map (\<lambda>ch. [ch]) text))) (c', w')))"

definition pressButton :: "server \<Rightarrow> string \<Rightarrow> unit call" where
  "pressButton srv button = (\<lambda>(c, w).
     (case ensureSession srv (c, w) of
        (Inl e, c', w') \<Rightarrow> (Inl e, c', w')
      | (Inr sid, c', w') \<Rightarrow>
          request_unit srv ''POST'' (''/session/'' @ sid @ ''/wda/pressButton'')
            (Some (ButtonBody button)) (c', w')))"

text \<open>The action calls of the session, to speak of "the next action call".\<close>

datatype action_call =
    CallTouch TouchAction real real
  | CallScroll real real real real
  | CallTypeText string
  | CallPressButton string

fun perform :: "server \<Rightarrow> action_call \<Rightarrow> unit call" where
  "perform srv (CallTouch action x y) = touch srv action x y"
| "perform srv (CallScroll x y deltaX deltaY) = scroll srv x y deltaX deltaY"
| "perform srv (CallTypeText text) = typeText srv text"
| "perform srv (CallPressButton button) = pressButton srv button"

text \<open>A pointer-action request is a request that carries an action chain; a session
  request is the \<^verbatim>\<open>POST /session\<close> of \<^verbatim>\<open>createSession\<close>.\<close>

definition is_actions_request :: "http_request \<Rightarrow> bool" where
  "is_actions_request r = (case body r of Some (Actions chain) \<Rightarrow> True | _ \<Rightarrow> False)"

definition is_session_request :: "http_request \<Rightarrow> bool" where
  "is_session_request r = (case body r of Some Capabilities \<Rightarrow> True | _ \<Rightarrow> False)"

text \<open>The gestures in the words of the specification: a tap is move, press, pause,
  release at one point; a swipe is press at the start, a timed move to the end, release.
  The points are whole pixels: \<open>n\<close> is the pixel of the coordinate \<open>x\<close> when it is the integer
  nearest to \<open>x\<close>, the higher one of two equally near.\<close>

definition tap_chain :: "int \<Rightarrow> int \<Rightarrow> pointer_action list" where
  "tap_chain x y = [PointerMove 0 x y, PointerDown 0, Pause 50, PointerUp 0]"

definition swipe_chain :: "int \<Rightarrow> int \<Rightarrow> int \<Rightarrow> int \<Rightarrow> pointer_action list" where
  "swipe_chain x0 y0 x1 y1 = [PointerMove 0 x0 y0, PointerDown 0, PointerMove 200 x1 y1, PointerUp 0]"

definition nearest_pixel :: "real \<Rightarrow> int \<Rightarrow> bool" where
  "nearest_pixel x n \<longleftrightarrow> of_int n - 1 / 2 \<le> x \<and> x < of_int n + 1 / 2"

text \<open>The distance of two points as double arithmetic computes it: the differences, their
  squares, the sum and the square root are each rounded to the nearest double. A coordinate
  is a whole pixel when it is an integer below 2 to the power 25 in magnitude.\<close>

definition double_distance :: "real \<Rightarrow> real \<Rightarrow> real \<Rightarrow> real \<Rightarrow> real" where
  "double_distance x0 y0 x1 y1 =
     rnd (sqrt (rnd (rnd ((rnd (x1 - x0))\<^sup>2) + rnd ((rnd (y1 - y0))\<^sup>2))))"

definition whole_pixel :: "int \<Rightarrow> real \<Rightarrow> bool" where
  "whole_pixel n x \<longleftrightarrow> x = of_int n \<and> \<bar>n\<bar> < 2 ^ 25"

definition actions_request :: "WDAClient \<Rightarrow> string \<Rightarrow> pointer_action list \<Rightarrow> http_request" where
  "actions_request c sid chain =
     \<lparr>http_method = ''POST'', url = baseUrl c @ ''/session/'' @ sid @ ''/actions'',
      body = Some (Actions chain)\<rparr>"

text \<open>Concrete parties for the examples: a fresh client, a remote end that accepts
  everything and names the session \<^verbatim>\<open>s1\<close>, and one that answers every request with
  404 because the session is gone.\<close>

definition new_client :: WDAClient where
  "new_client = \<lparr>baseUrl = ''http://localhost:8100'', sessionId = None, touchActive = False,
                  touchStartX = 0, touchStartY = 0\<rparr>"

definition ok_server :: server where
  "ok_server w = OkJson (JObject (Some ''s1'') None)"

definition gone_server :: server where
  "gone_server w = NotOk 404 ''invalid session id''"

section \<open>InputHandler: touch and wheel input on the canvas\<close>

text \<open>
  \<^verbatim>\<open>InputHandler\<close> of the webview. An event handler is a function from the handler's
  fields to the new fields and the callbacks it has called, in order. A canvas of width
  or height 0, where the division of \<^verbatim>\<open>getNormalizedCoords\<close> gives no finite number, is
  outside the model.
  The pointer fields (\<^verbatim>\<open>isPointerDown\<close>, \<^verbatim>\<open>pointerId\<close>, \<^verbatim>\<open>lastMoveTime\<close>) belong to
  the pointer handlers and are left out; \<open>hasOnScroll\<close> and \<open>hasOnMultiTouch\<close> say
  whether the optional callbacks were given to the constructor.
\<close>

record Point =
  clientX :: real
  clientY :: real

text \<open>\<^verbatim>\<open>Touch.identifier\<close> is the field \<open>touch_identifier\<close>.\<close>

record Touch = Point +
  touch_identifier :: int

record WheelEvent = Point +
  deltaX :: real
  deltaY :: real
  deltaMode :: nat

record TouchEvent =
  touches :: "Touch list"
  changedTouches :: "Touch list"

text \<open>The rectangle \<^verbatim>\<open>canvas.getBoundingClientRect()\<close>.\<close>

record DOMRect =
  rect_left :: real
  rect_top :: real
  rect_width :: real
  rect_height :: real

type_synonym coords = "real \<times> real"

datatype callback =
    OnMultiTouch real real real real TouchAction
  | OnScroll real real real real

text \<open>A JavaScript \<^verbatim>\<open>Map\<close> keeps its keys in insertion order: \<^verbatim>\<open>set\<close> replaces the
  value of a key in place and puts a new key last.\<close>

fun map_set :: "int \<Rightarrow> 'v \<Rightarrow> (int \<times> 'v) list \<Rightarrow> (int \<times> 'v) list" where
  "map_set k v [] = [(k, v)]"
| "map_set k v ((k', v') # m) = (if k' = k then (k, v) # m else (k', v') # map_set k v m)"

definition map_values :: "(int \<times> 'v) list \<Rightarrow> 'v list" where
  "map_values m = map snd m"

definition map_delete :: "int \<Rightarrow> (int \<times> 'v) list \<Rightarrow> (int \<times> 'v) list" where
  "map_delete k m = filter (\<lambda>kv. fst kv \<noteq> k) m"

record InputHandler =
  hasOnScroll :: bool
  hasOnMultiTouch :: bool
  scrollBufferX :: real
  scrollBufferY :: real
  lastScrollX :: real
  lastScrollY :: real
  scrollRafId :: "nat option"
  activeTouches :: "(int \<times> coords) list"
  isPinching :: bool
  initialPinchDistance :: real

text \<open>The animation frame callbacks the browser holds: \<^verbatim>\<open>requestAnimationFrame\<close> queues
  one and returns its id; at the next frame the browser runs the queued callbacks.\<close>

record Browser =
  rafQueue :: "nat list"
  rafNextId :: nat

definition requestAnimationFrame :: "Browser \<Rightarrow> nat \<times> Browser" where
  "requestAnimationFrame b =
     (rafNextId b, b\<lparr>rafQueue := rafQueue b @ [rafNextId b], rafNextId := rafNextId b + 1\<rparr>)"

definition getNormalizedCoordsFromTouch :: "DOMRect \<Rightarrow> 'a Point_scheme \<Rightarrow> coords" where
  "getNormalizedCoordsFromTouch rect t =
     (let x = js_sub (clientX t) (rect_left rect);
          y = js_sub (clientY t) (rect_top rect)
      in (max 0 (min 1 (js_div x (rect_width rect))), max 0 (min 1 (js_div y (rect_height rect)))))"

definition getNormalizedCoordsFromMouse :: "DOMRect \<Rightarrow> 'a Point_scheme \<Rightarrow> coords" where
  "getNormalizedCoordsFromMouse rect event =
     (let x = js_sub (clientX event) (rect_left rect);
          y = js_sub (clientY event) (rect_top rect)
      in (max 0 (min 1 (js_div x (rect_width rect))), max 0 (min 1 (js_div y (rect_height rect)))))"

definition calculateDistance :: "coords \<Rightarrow> coords \<Rightarrow> real" where
  "calculateDistance point1 point2 =
     (let dx = js_sub (fst point2) (fst point1); dy = js_sub (snd point2) (snd point1)
      in Math_sqrt (js_add (js_mul dx dx) (js_mul dy dy)))"

definition onTouchStart :: "DOMRect \<Rightarrow> TouchEvent \<Rightarrow> InputHandler \<Rightarrow> InputHandler \<times> callback list" where
  "onTouchStart rect event h =
     (if length (touches event) = 2 \<and> hasOnMultiTouch h then
        (let touch1 = touches event ! 0;
             touch2 = touches event ! 1;
             coords1 = getNormalizedCoordsFromTouch rect touch1;
             coords2 = getNormalizedCoordsFromTouch rect touch2;
             h1 = h\<lparr>isPinching := True\<rparr>;
             h2 = h1\<lparr>activeTouches := map_set (touch_identifier touch1) coords1 (activeTouches h1)\<rparr>;
             h3 = h2\<lparr>activeTouches := map_set (touch_identifier touch2) coords2 (activeTouches h2)\<rparr>;
             h4 = h3\<lparr>initialPinchDistance := calculateDistance coords1 coords2\<rparr>
         in (h4, [OnMultiTouch (fst coords1) (snd coords1) (fst coords2) (snd coords2) Down]))
      else if length (touches event) = 1 then
        (h\<lparr>isPinching := False, activeTouches := []\<rparr>, [])
      else if 2 < length (touches event) then
        (h\<lparr>isPinching := False, activeTouches := []\<rparr>,
         if isPinching h \<and> hasOnMultiTouch h then
           (let touchArray = map_values (activeTouches h)
            in if length touchArray = 2
               then [OnMultiTouch (fst (touchArray ! 0)) (snd (touchArray ! 0))
                                  (fst (touchArray ! 1)) (snd (touchArray ! 1)) Up]
               else [])
         else [])
      else (h, []))"

definition onTouchMove :: "DOMRect \<Rightarrow> TouchEvent \<Rightarrow> InputHandler \<Rightarrow> InputHandler \<times> callback list" where
  "onTouchMove rect event h =
     (if isPinching h \<and> length (touches event) = 2 \<and> hasOnMultiTouch h then
        (let touch1 = touches event ! 0;
             touch2 = touches event ! 1;
             coords1 = getNormalizedCoordsFromTouch rect touch1;
             coords2 = getNormalizedCoordsFromTouch rect touch2;
             h1 = h\<lparr>activeTouches := map_set (touch_identifier touch1) coords1 (activeTouches h)\<rparr>;
             h2 = h1\<lparr>activeTouches := map_set (touch_identifier touch2) coords2 (activeTouches h1)\<rparr>
         in (h2, [OnMultiTouch (fst coords1) (snd coords1) (fst coords2) (snd coords2) Move]))
      else (h, []))"

definition onTouchEnd :: "DOMRect \<Rightarrow> TouchEvent \<Rightarrow> InputHandler \<Rightarrow> InputHandler \<times> callback list" where
  "onTouchEnd rect event h =
     (let (h1, calls) =
            (if isPinching h \<and> hasOnMultiTouch h then
               (let touchArray = map_values (activeTouches h)
                in (h\<lparr>isPinching := False, activeTouches := [], initialPinchDistance := 0\<rparr>,
                    if length touchArray = 2
                    then [OnMultiTouch (fst (touchArray ! 0)) (snd (touchArray ! 0))
                                       (fst (touchArray ! 1)) (snd (touchArray ! 1)) Up]
                    else []))
             else (h, []))
      in (h1\<lparr>activeTouches :=
               fold (\<lambda>t m. map_delete (touch_identifier t) m) (changedTouches event) (activeTouches h1)\<rparr>,
          calls))"

definition onWheelEvent ::
  "DOMRect \<Rightarrow> WheelEvent \<Rightarrow> InputHandler \<times> Browser \<Rightarrow> InputHandler \<times> Browser" where
  "onWheelEvent rect event = (\<lambda>(h, b).
     if \<not> hasOnScroll h then (h, b)
     else
       (let coords = getNormalizedCoordsFromMouse rect event;
            h1 = h\<lparr>lastScrollX := fst coords, lastScrollY := snd coords\<rparr>;
            (dX, dY) =
              (if deltaMode event = 1 then (js_mul (deltaX event) 16, js_mul (deltaY event) 16)
               else if deltaMode event = 2 then (js_mul (deltaX event) 100, js_mul (deltaY event) 100)
               else (deltaX event, deltaY event));
            SCROLL_STEP = 200;
            dX' = js_div (- dX) SCROLL_STEP;
            dY' = js_div (- dY) SCROLL_STEP;
            h2 = h1\<lparr>scrollBufferX := js_add (scrollBufferX h1) dX',
                     scrollBufferY := js_add (scrollBufferY h1) dY'\<rparr>
        in if scrollRafId h2 = None
           then (let (rafId, b') = requestAnimationFrame b
                 in (h2\<lparr>scrollRafId := Some rafId\<rparr>, b'))
           else (h2, b)))"

definition processScrollBuffer :: "InputHandler \<Rightarrow> InputHandler \<times> callback list" where
  "processScrollBuffer h =
     (let h1 = h\<lparr>scrollRafId := None\<rparr>;
          THRESHOLD = rnd (1 / 10000)
      in if THRESHOLD < \<bar>scrollBufferX h1\<bar> \<or> THRESHOLD < \<bar>scrollBufferY h1\<bar>
         then (h1\<lparr>scrollBufferX := 0, scrollBufferY := 0\<rparr>,
               [OnScroll (lastScrollX h1) (lastScrollY h1) (scrollBufferX h1) (scrollBufferY h1)])
         else (h1, []))"

text \<open>An animation frame: the browser empties its queue and runs each queued callback,
  every one of them \<^verbatim>\<open>() => this.processScrollBuffer()\<close>.\<close>

fun runCallbacks :: "nat list \<Rightarrow> InputHandler \<Rightarrow> InputHandler \<times> callback list" where
  "runCallbacks [] h = (h, [])"
| "runCallbacks (rafId # queue) h =
     (let (h1, calls1) = processScrollBuffer h;
          (h2, calls2) = runCallbacks queue h1
      in (h2, calls1 @ calls2))"

definition animationFrame :: "InputHandler \<times> Browser \<Rightarrow> (InputHandler \<times> Browser) \<times> callback list" where
  "animationFrame = (\<lambda>(h, b).
     (let (h', calls) = runCallbacks (rafQueue b) h
      in ((h', b\<lparr>rafQueue := []\<rparr>), calls)))"

text \<open>The events the canvas and the browser deliver, and a run of the handler over a
  sequence of them.\<close>

datatype dom_event =
    TouchStartEvent TouchEvent
  | TouchMoveEvent TouchEvent
  | TouchEndEvent TouchEvent
  | WheelEv WheelEvent
  | AnimationFrame

fun dispatch ::
  "DOMRect \<Rightarrow> dom_event \<Rightarrow> InputHandler \<times> Browser \<Rightarrow> (InputHandler \<times> Browser) \<times> callback list" where
  "dispatch rect (TouchStartEvent e) (h, b) = (let (h', calls) = onTouchStart rect e h in ((h', b), calls))"
| "dispatch rect (TouchMoveEvent e) (h, b) = (let (h', calls) = onTouchMove rect e h in ((h', b), calls))"
| "dispatch rect (TouchEndEvent e) (h, b) = (let (h', calls) = onTouchEnd rect e h in ((h', b), calls))"
| "dispatch rect (WheelEv e) (h, b) = (onWheelEvent rect e (h, b), [])"
| "dispatch rect AnimationFrame (h, b) = animationFrame (h, b)"

fun run ::
  "DOMRect \<Rightarrow> dom_event list \<Rightarrow> InputHandler \<times> Browser \<Rightarrow> (InputHandler \<times> Browser) \<times> callback list" where
  "run rect [] s = (s, [])"
| "run rect (ev # evs) s =
     (let (s1, calls1) = dispatch rect ev s;
          (s2, calls2) = run rect evs s1
      in (s2, calls1 @ calls2))"

text \<open>The handler as the constructor leaves it, with both optional callbacks given, and a
  browser with no callback queued.\<close>

definition new_handler :: InputHandler where
  "new_handler =
     \<lparr>hasOnScroll = True, hasOnMultiTouch = True,
      scrollBufferX = 0, scrollBufferY = 0, lastScrollX = 0, lastScrollY = 0,
      scrollRafId = None, activeTouches = [], isPinching = False, initialPinchDistance = 0\<rparr>"

definition new_browser :: Browser where
  "new_browser = \<lparr>rafQueue = [], rafNextId = 1\<rparr>"



text \<open>The words of the specification for scrolling: the pixel deltas of a wheel event
  (a line is 16 pixels, a page 100), a pixel delta in scroll units (negated and divided
  by the scroll step 200), and the callbacks that are scroll callbacks.\<close>

definition pixelDeltaX :: "WheelEvent \<Rightarrow> real" where
  "pixelDeltaX e = (if deltaMode e = 1 then js_mul (deltaX e) 16
                    else if deltaMode e = 2 then js_mul (deltaX e) 100 else deltaX e)"

definition pixelDeltaY :: "WheelEvent \<Rightarrow> real" where
  "pixelDeltaY e = (if deltaMode e = 1 then js_mul (deltaY e) 16
                    else if deltaMode e = 2 then js_mul (deltaY e) 100 else deltaY e)"

definition scroll_units :: "real \<Rightarrow> real" where
  "scroll_units d = js_div (- d) 200"

definition is_scroll_call :: "callback \<Rightarrow> bool" where
  "is_scroll_call c = (case c of OnScroll x y dx dy \<Rightarrow> True | _ \<Rightarrow> False)"

text \<open>The epsilon of the flush, the double nearest to 0.0001, and a buffer that is
  too small to be flushed.\<close>

definition epsilon :: real where
  "epsilon = rnd (1 / 10000)"

definition below_epsilon :: "real \<times> real \<Rightarrow> bool" where
  "below_epsilon buf \<longleftrightarrow> \<bar>fst buf\<bar> \<le> epsilon \<and> \<bar>snd buf\<bar> \<le> epsilon"

text \<open>
  Accumulate and flush, in the words of the specification. \<open>pos\<close> is the position of the
  last wheel event and \<open>buf\<close> the accumulated deltas. A wheel event adds its deltas, in
  scroll units, to the accumulated ones and calls nothing. An animation frame flushes: when
  one of the accumulated magnitudes is above epsilon it calls the scroll callback once with
  the accumulated deltas and starts again from zero, otherwise it calls nothing and keeps
  what is accumulated. Touch events do not count.
\<close>

fun scroll_calls :: "DOMRect \<Rightarrow> coords \<Rightarrow> real \<times> real \<Rightarrow> dom_event list \<Rightarrow> callback list" where
  "scroll_calls rect pos buf [] = []"
| "scroll_calls rect pos buf (WheelEv e # evs) =
     scroll_calls rect (getNormalizedCoordsFromMouse rect e)
       (js_add (fst buf) (scroll_units (pixelDeltaX e)),
        js_add (snd buf) (scroll_units (pixelDeltaY e))) evs"
| "scroll_calls rect pos buf (AnimationFrame # evs) =
     (if below_epsilon buf then scroll_calls rect pos buf evs
      else OnScroll (fst pos) (snd pos) (fst buf) (snd buf) # scroll_calls rect pos (0, 0) evs)"
| "scroll_calls rect pos buf (ev # evs) = scroll_calls rect pos buf evs"

text \<open>What a burst of wheel events accumulates on top of \<open>start\<close>, one rounded addition
  after the other.\<close>

definition accumulated :: "real \<Rightarrow> real list \<Rightarrow> real" where
  "accumulated start ds = foldl js_add start (map scroll_units ds)"

text \<open>At most one animation frame callback is ever queued, and it is the one whose id the
  handler holds.\<close>

definition raf_inv :: "InputHandler \<times> Browser \<Rightarrow> bool" where
  "raf_inv s \<longleftrightarrow>
     rafQueue (snd s) = (case scrollRafId (fst s) of None \<Rightarrow> [] | Some rafId \<Rightarrow> [rafId])"



text \<open>The canvas of the unit tests, 800 by 600 at the origin, and the events of their
  two-finger scenarios and wheel scenarios.\<close>

definition canvas_rect :: DOMRect where
  "canvas_rect = \<lparr>rect_left = 0, rect_top = 0, rect_width = 800, rect_height = 600\<rparr>"








definition wheel :: "real \<Rightarrow> real \<Rightarrow> real \<Rightarrow> real \<Rightarrow> nat \<Rightarrow> WheelEvent" where
  "wheel x y dx dy mode = \<lparr>clientX = x, clientY = y, deltaX = dx, deltaY = dy, deltaMode = mode\<rparr>"

text \<open>The double next below 8, written \<^verbatim>\<open>7.999999999999999\<close>.\<close>

definition just_below_8 :: real where
  "just_below_8 = 8 - 1 / 2 ^ 50"

text \<open>The effect an action call has while a session id is stored: it issues at most one
  request, never the session request, and keeps the id; when it raises, it has issued
  exactly one request.\<close>

definition stored_effect :: "string \<Rightarrow> world \<Rightarrow> (error + unit) \<times> WDAClient \<times> world \<Rightarrow> bool" where
  "stored_effect sid w res \<longleftrightarrow>
     (case res of (r, c', w') \<Rightarrow>
        sessionId c' = Some sid
        \<and> ((\<exists>req. w' = w @ [req] \<and> \<not> is_session_request req) \<or> (w' = w \<and> \<not> isl r)))"

text \<open>The session request, the state after \<^verbatim>\<open>touch('down', 100, 200)\<close> on a fresh
  client, and a client holding the id of a session that is gone.\<close>

definition after_down :: "WDAClient \<times> world" where
  "after_down = snd (touch ok_server Down 100 200 (new_client, []))"

definition session_request :: "WDAClient \<Rightarrow> http_request" where
  "session_request c = \<lparr>http_method = ''POST'', url = baseUrl c @ ''/session'', body = Some Capabilities\<rparr>"

definition stale_client :: WDAClient where
  "stale_client = new_client\<lparr>sessionId := Some ''dead''\<rparr>"

section \<open>Properties\<close>

subsection \<open>Properties of the rounding to doubles\<close>

lemma pow2_powr: "pow2 e = 2 powr (of_int e)"
  by (simp add: pow2_def powr_int)

lemma pow2_pos: "0 < pow2 e"
  by (simp add: pow2_def)

lemma pow2_add: "pow2 (a + b) = pow2 a * pow2 b"
  by (simp add: pow2_powr powr_add)

lemma pow2_less_iff: "pow2 a < pow2 b \<longleftrightarrow> a < b"
  by (simp add: pow2_powr)

lemma pow2_le_iff: "pow2 a \<le> pow2 b \<longleftrightarrow> a \<le> b"
  by (simp add: pow2_powr)

lemma pow2_nat: "pow2 (int k) = 2 ^ k"
  by (simp add: pow2_def)

text \<open>The binary exponent is the one of the range whose power of two is at or below the
  number while the next is above.\<close>

lemma binade_from_eq:
  assumes "pow2 e \<le> a" and "a < pow2 (e + 1)" and "- 1022 \<le> e" and "e \<le> int n - 1022"
  shows "binade_from n a = e"
  using assms
proof (induction n)
  case 0
  then show ?case by simp
next
  case (Suc n)
  show ?case
  proof (cases "pow2 (int n - 1021) \<le> a")
    case True
    with Suc.prems(2) have "pow2 (int n - 1021) < pow2 (e + 1)" by simp
    then have "int n - 1021 < e + 1" by (simp add: pow2_less_iff)
    with Suc.prems(4) have "int n - 1021 = e" by simp
    with True show ?thesis by simp
  next
    case False
    with Suc.prems(1) have "pow2 e < pow2 (int n - 1021)" by simp
    then have "e < int n - 1021" by (simp add: pow2_less_iff)
    then have "e \<le> int n - 1022" by simp
    with Suc.IH Suc.prems False show ?thesis by simp
  qed
qed

lemma binade_from_range: "- 1022 \<le> binade_from n a \<and> binade_from n a \<le> int n - 1022"
  by (induction n) auto

lemma binade_from_lower: "- 1022 < binade_from n a \<Longrightarrow> pow2 (binade_from n a) \<le> a"
  by (induction n) (auto split: if_splits)

lemma binade_from_upper: "a < pow2 (int n - 1021) \<Longrightarrow> a < pow2 (binade_from n a + 1)"
proof (induction n)
  case 0
  then show ?case by simp
next
  case (Suc n)
  show ?case
  proof (cases "pow2 (int n - 1021) \<le> a")
    case True
    have "int (Suc n) - 1021 = int n - 1021 + 1" by simp
    with Suc.prems True show ?thesis by simp
  next
    case False
    with Suc.IH show ?thesis by simp
  qed
qed

lemma binade_from_mono: "a \<le> b \<Longrightarrow> binade_from n a \<le> binade_from n b"
proof (induction n)
  case 0
  then show ?case by simp
next
  case (Suc n)
  show ?case
  proof (cases "pow2 (int n - 1021) \<le> b")
    case True
    with binade_from_range [of n a] show ?thesis by simp
  next
    case False
    with Suc.prems have "\<not> pow2 (int n - 1021) \<le> a" by simp
    with False Suc show ?thesis by simp
  qed
qed

lemma binade_eq:
  assumes "pow2 e \<le> \<bar>x\<bar>" "\<bar>x\<bar> < pow2 (e + 1)" "- 1022 \<le> e" "e \<le> 1023"
  shows "binade x = e"
  unfolding binade_def using assms by (intro binade_from_eq) simp_all

lemma binade_upper: "\<bar>x\<bar> < pow2 1024 \<Longrightarrow> \<bar>x\<bar> < pow2 (binade x + 1)"
  unfolding binade_def by (intro binade_from_upper) simp

lemma binade_lower: "- 1022 < binade x \<Longrightarrow> pow2 (binade x) \<le> \<bar>x\<bar>"
  unfolding binade_def by (rule binade_from_lower)

lemma binade_mono: "\<bar>x\<bar> \<le> \<bar>y\<bar> \<Longrightarrow> binade x \<le> binade y"
  unfolding binade_def by (rule binade_from_mono)

lemma binade_range: "- 1022 \<le> binade x \<and> binade x \<le> 1023"
  unfolding binade_def using binade_from_range [of 2045 "\<bar>x\<bar>"] by simp

lemma ulp_pos: "0 < ulp x"
  by (simp add: ulp_def pow2_pos)

lemma rnd_eval:
  assumes "pow2 e \<le> \<bar>x\<bar>" "\<bar>x\<bar> < pow2 (e + 1)" "- 1022 \<le> e" "e \<le> 1023"
  shows "rnd x = of_int (round_even (x / pow2 (e - 52))) * pow2 (e - 52)"
proof -
  have "x \<noteq> 0" using assms(1) pow2_pos [of e] by auto
  then show ?thesis using binade_eq [OF assms] by (simp add: rnd_def ulp_def)
qed

lemma round_even_of_int: "round_even (of_int m) = m"
  by (simp add: round_even_def)

lemma round_even_bounds: "\<lfloor>y\<rfloor> \<le> round_even y \<and> round_even y \<le> \<lfloor>y\<rfloor> + 1"
  by (simp add: round_even_def Let_def)

lemma round_even_ge: "of_int N \<le> y \<Longrightarrow> N \<le> round_even y"
proof -
  assume "of_int N \<le> y"
  then have "N \<le> \<lfloor>y\<rfloor>" by (simp add: le_floor_iff)
  then show ?thesis using round_even_bounds [of y] by simp
qed

lemma round_even_le: "y \<le> of_int N \<Longrightarrow> round_even y \<le> N"
proof (cases "y = of_int N")
  case True then show ?thesis by (simp add: round_even_of_int)
next
  case False
  assume "y \<le> of_int N"
  with False have "y < of_int N" by simp
  then have "\<lfloor>y\<rfloor> < N" by (simp add: floor_less_iff)
  then show ?thesis using round_even_bounds [of y] by simp
qed

lemma round_even_mono: "a \<le> b \<Longrightarrow> round_even a \<le> round_even b"
proof (cases "\<lfloor>a\<rfloor> = \<lfloor>b\<rfloor>")
  case True
  assume "a \<le> b"
  then show ?thesis using True by (auto simp: round_even_def Let_def)
next
  case False
  assume "a \<le> b"
  then have "\<lfloor>a\<rfloor> \<le> \<lfloor>b\<rfloor>" by (rule floor_mono)
  with False have "\<lfloor>a\<rfloor> + 1 \<le> \<lfloor>b\<rfloor>" by simp
  then show ?thesis using round_even_bounds [of a] round_even_bounds [of b] by linarith
qed

text \<open>Rounding keeps a positive number within its binade, keeps the order, and keeps
  the integers below 2 to the power 53.\<close>

lemma rnd_upper:
  assumes "0 < x" and "x < pow2 1024"
  shows "rnd x \<le> pow2 (binade x + 1)"
proof -
  have e: "pow2 (binade x + 1) = 2 ^ 53 * ulp x"
    using pow2_add [of 53 "binade x - 52"] pow2_nat [of 53] by (simp add: ulp_def add.commute)
  moreover have "x < pow2 (binade x + 1)" using binade_upper [of x] assms by simp
  ultimately have "x / ulp x < 2 ^ 53" using ulp_pos [of x] by (simp add: pos_divide_less_eq)
  then have "x / ulp x \<le> of_int (2 ^ 53)" by simp
  then have "round_even (x / ulp x) \<le> 2 ^ 53" by (rule round_even_le)
  then have "real_of_int (round_even (x / ulp x)) \<le> 2 ^ 53" by simp
  then have "of_int (round_even (x / ulp x)) * ulp x \<le> 2 ^ 53 * ulp x"
    using ulp_pos [of x] by (simp del: of_int_le_numeral_power_cancel_iff)
  then show ?thesis using assms e by (simp add: rnd_def)
qed

lemma rnd_lower:
  assumes "0 < x" and "- 1022 < binade x"
  shows "pow2 (binade x) \<le> rnd x"
proof -
  have e: "pow2 (binade x) = 2 ^ 52 * ulp x"
    using pow2_add [of 52 "binade x - 52"] pow2_nat [of 52] by (simp add: ulp_def)
  moreover have "pow2 (binade x) \<le> x" using binade_lower [of x] assms by simp
  ultimately have "2 ^ 52 \<le> x / ulp x" using ulp_pos [of x] by (simp add: pos_le_divide_eq)
  then have "of_int (2 ^ 52) \<le> x / ulp x" by simp
  then have "2 ^ 52 \<le> round_even (x / ulp x)" by (rule round_even_ge)
  then have "2 ^ 52 \<le> real_of_int (round_even (x / ulp x))" by simp
  then have "2 ^ 52 * ulp x \<le> of_int (round_even (x / ulp x)) * ulp x"
    using ulp_pos [of x] by (simp del: numeral_power_le_of_int_cancel_iff)
  then show ?thesis using assms e by (simp add: rnd_def)
qed

lemma rnd_mono:
  assumes "0 < x" and "x \<le> y" and "y < pow2 1024"
  shows "rnd x \<le> rnd y"
proof (cases "binade x = binade y")
  case True
  then have u: "ulp x = ulp y" by (simp add: ulp_def)
  have "x / ulp y \<le> y / ulp y" using assms ulp_pos [of y] by (simp add: divide_right_mono)
  then have "round_even (x / ulp y) \<le> round_even (y / ulp y)" by (rule round_even_mono)
  then have "real_of_int (round_even (x / ulp y)) * ulp y \<le> real_of_int (round_even (y / ulp y)) * ulp y"
    using ulp_pos [of y] by simp
  then show ?thesis using assms u by (simp add: rnd_def)
next
  case False
  then have lt: "binade x < binade y" using binade_mono [of x y] assms by simp
  have "- 1022 \<le> binade x" using binade_range [of x] by simp
  with lt have "- 1022 < binade y" by simp
  then have "pow2 (binade y) \<le> rnd y" using rnd_lower [of y] assms by simp
  moreover have "rnd x \<le> pow2 (binade x + 1)" using rnd_upper [of x] assms by simp
  moreover have "pow2 (binade x + 1) \<le> pow2 (binade y)" using lt by (simp add: pow2_le_iff)
  ultimately show ?thesis by linarith
qed

lemma rnd_zero: "rnd 0 = 0"
  by (simp add: rnd_def)

lemma floor_log_bounds:
  assumes "x \<noteq> 0"
  shows "pow2 \<lfloor>log 2 \<bar>x\<bar>\<rfloor> \<le> \<bar>x\<bar> \<and> \<bar>x\<bar> < pow2 (\<lfloor>log 2 \<bar>x\<bar>\<rfloor> + 1)"
  using floor_log_eq_powr_iff [of "\<bar>x\<bar>" 2 "\<lfloor>log 2 \<bar>x\<bar>\<rfloor>"] assms by (simp add: pow2_powr)

lemma rnd_int:
  assumes "\<bar>n\<bar> < 2 ^ 53"
  shows "rnd (of_int n) = of_int n"
proof (cases "n = 0")
  case True then show ?thesis by (simp add: rnd_def)
next
  case False
  define x :: real where "x = of_int n"
  define L where "L = \<lfloor>log 2 \<bar>x\<bar>\<rfloor>"
  have x0: "x \<noteq> 0" using False by (simp add: x_def)
  have b: "pow2 L \<le> \<bar>x\<bar>" "\<bar>x\<bar> < pow2 (L + 1)" using floor_log_bounds [OF x0] by (simp_all add: L_def)
  have "1 \<le> \<bar>x\<bar>" using False by (simp add: x_def)
  then have "pow2 0 < pow2 (L + 1)" using b(2) by (simp add: pow2_def)
  then have L0: "0 \<le> L" by (simp add: pow2_less_iff)
  have "\<bar>x\<bar> < 2 ^ 53" using assms unfolding x_def by (metis of_int_abs of_int_less_numeral_power_cancel_iff)
  then have "pow2 L < pow2 53" using b(1) pow2_nat [of 53] by simp
  then have L52: "L \<le> 52" by (simp add: pow2_less_iff)
  have be: "binade x = L" using b L0 L52 by (intro binade_eq) simp_all
  define k where "k = nat (52 - L)"
  have u: "ulp x = 1 / 2 ^ k" using L52 L0 by (simp add: ulp_def be pow2_def k_def)
  have "x / ulp x = of_int (n * 2 ^ k)" unfolding u by (simp add: x_def)
  then have "round_even (x / ulp x) = n * 2 ^ k" by (simp only: round_even_of_int)
  then have "rnd x = of_int (n * 2 ^ k) * (1 / 2 ^ k)" using x0 u by (simp add: rnd_def)
  then have "rnd x = x" by (simp add: x_def)
  then show ?thesis by (simp add: x_def)
qed

lemma rnd_nonneg: "0 \<le> x \<Longrightarrow> 0 \<le> rnd x"
proof (cases "x = 0")
  case True
  then show ?thesis by (simp add: rnd_def)
next
  case False
  assume "0 \<le> x"
  then have "of_int 0 \<le> x / ulp x" using ulp_pos [of x] by simp
  then have "0 \<le> round_even (x / ulp x)" by (rule round_even_ge)
  then show ?thesis using False ulp_pos [of x] by (simp add: rnd_def)
qed

lemma bit_count_bound: "n < 2 ^ bit_count n"
proof (induction n rule: bit_count.induct)
  case (1 n)
  show ?case
  proof (cases "n \<le> 0")
    case True
    then show ?thesis by (simp add: bit_count.simps)
  next
    case False
    with 1 have "n div 2 < 2 ^ bit_count (n div 2)" by simp
    then have "n < 2 * 2 ^ bit_count (n div 2)" by linarith
    with False show ?thesis by (simp add: bit_count.simps [of n])
  qed
qed

lemma isqrt_from_correct:
  assumes "0 \<le> r" and "r * r \<le> n" and "n < (r + 2 ^ b) * (r + 2 ^ b)"
  shows "0 \<le> isqrt_from b n r \<and> isqrt_from b n r * isqrt_from b n r \<le> n
         \<and> n < (isqrt_from b n r + 1) * (isqrt_from b n r + 1)"
  using assms
proof (induction b arbitrary: r)
  case 0
  then show ?case by simp
next
  case (Suc b)
  show ?case
  proof (cases "(r + 2 ^ b) * (r + 2 ^ b) \<le> n")
    case True
    have e: "r + 2 ^ b + 2 ^ b = r + 2 ^ Suc b" by simp
    have "n < (r + 2 ^ b + 2 ^ b) * (r + 2 ^ b + 2 ^ b)" unfolding e by (rule Suc.prems(3))
    moreover have "0 \<le> r + 2 ^ b" using Suc.prems(1) by simp
    ultimately show ?thesis using Suc.IH [of "r + 2 ^ b"] True by simp
  next
    case False
    then show ?thesis using Suc.IH [of r] Suc.prems by simp
  qed
qed

lemma isqrt_correct:
  assumes "0 \<le> n"
  shows "0 \<le> isqrt n \<and> isqrt n * isqrt n \<le> n \<and> n < (isqrt n + 1) * (isqrt n + 1)"
proof -
  define b where "b = bit_count n"
  have lt: "n < 2 ^ b" unfolding b_def by (rule bit_count_bound)
  have "(2::int) ^ b * 1 \<le> 2 ^ b * 2 ^ b" by (rule mult_left_mono) simp_all
  then have "(2::int) ^ b \<le> 2 ^ b * 2 ^ b" by simp
  with lt have "n < 2 ^ b * 2 ^ b" by linarith
  then have "n < (0 + 2 ^ b) * (0 + 2 ^ b)" by simp
  with assms show ?thesis unfolding isqrt_def b_def [symmetric]
    by (intro isqrt_from_correct) simp_all
qed

lemma floor_sqrt:
  assumes "0 \<le> q"
  shows "\<lfloor>sqrt q\<rfloor> = isqrt \<lfloor>q\<rfloor>"
proof -
  define k where "k = isqrt \<lfloor>q\<rfloor>"
  have "0 \<le> \<lfloor>q\<rfloor>" using assms by simp
  from isqrt_correct [OF this]
  have k0: "0 \<le> k" and lo: "k * k \<le> \<lfloor>q\<rfloor>" and hi: "\<lfloor>q\<rfloor> < (k + 1) * (k + 1)"
    by (simp_all add: k_def)
  from lo have "of_int (k * k) \<le> q" by (simp only: le_floor_iff)
  then have "(of_int k)\<^sup>2 \<le> q" by (simp add: power2_eq_square)
  then have l: "of_int k \<le> sqrt q" by (rule real_le_rsqrt)
  from hi have "q < of_int ((k + 1) * (k + 1))" by (simp only: floor_less_iff)
  then have "q < (of_int (k + 1))\<^sup>2" by (simp add: power2_eq_square)
  moreover have "0 \<le> real_of_int (k + 1)" using k0 by simp
  ultimately have h: "sqrt q < of_int (k + 1)" by (intro real_less_lsqrt) simp_all
  from l h show ?thesis unfolding k_def [symmetric] by (simp add: floor_eq_iff)
qed

lemma sqrt_less_half:
  assumes "0 \<le> q" and "0 \<le> k"
  shows "sqrt q < of_int k + 1 / 2 \<longleftrightarrow> q < (of_int k + 1 / 2) * (of_int k + 1 / 2)"
    and "of_int k + 1 / 2 < sqrt q \<longleftrightarrow> (of_int k + 1 / 2) * (of_int k + 1 / 2) < q"
proof -
  define h :: real where "h = of_int k + 1 / 2"
  have h0: "0 \<le> h" using assms(2) by (simp add: h_def)
  have s: "sqrt (h * h) = h" using h0 by simp
  show "sqrt q < of_int k + 1 / 2 \<longleftrightarrow> q < (of_int k + 1 / 2) * (of_int k + 1 / 2)"
    unfolding h_def [symmetric] using real_sqrt_less_iff [of q "h * h"] s by simp
  show "of_int k + 1 / 2 < sqrt q \<longleftrightarrow> (of_int k + 1 / 2) * (of_int k + 1 / 2) < q"
    unfolding h_def [symmetric] using real_sqrt_less_iff [of "h * h" q] s by simp
qed

lemma pow2_double: "pow2 (2 * m) = pow2 m * pow2 m"
  using pow2_add [of m m] by simp

lemma sqrt_binade_from_eq:
  assumes "0 \<le> a"
  shows "sqrt_binade_from n a = binade_from n (sqrt a)"
proof (induction n)
  case 0
  show ?case by simp
next
  case (Suc n)
  define p where "p = pow2 (int n - 1021)"
  have p0: "0 \<le> p" using pow2_pos [of "int n - 1021"] by (simp add: p_def)
  have "sqrt (p * p) = p" using p0 by simp
  then have iff: "p * p \<le> a \<longleftrightarrow> p \<le> sqrt a"
    using real_sqrt_le_iff [of "p * p" a] by simp
  have d: "pow2 (2 * (int n - 1021)) = p * p" unfolding p_def by (rule pow2_double)
  show ?case
    unfolding sqrt_binade_from.simps binade_from.simps d p_def [symmetric] iff Suc ..
qed

text \<open>\<^verbatim>\<open>Math.sqrt\<close> is the square root rounded to the nearest double.\<close>

lemma Math_sqrt_rnd:
  assumes "0 \<le> a"
  shows "Math_sqrt a = rnd (sqrt a)"
proof (cases "a = 0")
  case True
  then show ?thesis by (simp add: Math_sqrt_def rnd_zero)
next
  case False
  with assms have pos: "0 < a" by simp
  define z where "z = sqrt a"
  define u where "u = ulp z"
  define q where "q = a / (u * u)"
  define k where "k = isqrt \<lfloor>q\<rfloor>"
  have z0: "0 < z" using pos by (simp add: z_def)
  have u0: "0 < u" by (simp add: u_def ulp_pos)
  have ue: "pow2 (sqrt_binade_from 2045 a - 52) = u"
    using sqrt_binade_from_eq [OF assms, of 2045] z0
    by (simp add: u_def ulp_def binade_def z_def)
  have "z * z = a" using assms by (simp add: z_def)
  then have qz: "q = (z / u) * (z / u)" by (simp add: q_def)
  have "sqrt ((z / u) * (z / u)) = \<bar>z / u\<bar>" by (rule real_sqrt_abs2)
  also have "\<dots> = z / u" using z0 u0 by simp
  finally have zq: "z / u = sqrt q" by (simp only: qz)
  have q0: "0 \<le> q" using pos u0 by (simp add: q_def)
  have fl: "\<lfloor>z / u\<rfloor> = k" unfolding zq k_def by (rule floor_sqrt [OF q0])
  have k0: "0 \<le> k" using isqrt_correct [of "\<lfloor>q\<rfloor>"] q0 by (simp add: k_def)
  define y where "y = z / u"
  define h :: real where "h = of_int k + 1 / 2"
  have fy: "\<lfloor>y\<rfloor> = k" using fl by (simp add: y_def)
  have yq: "y = sqrt q" using zq by (simp add: y_def)
  have c1: "y - of_int k < 1 / 2 \<longleftrightarrow> q < h * h"
    using sqrt_less_half(1) [OF q0 k0] unfolding yq h_def by auto
  have c2: "1 / 2 < y - of_int k \<longleftrightarrow> h * h < q"
    using sqrt_less_half(2) [OF q0 k0] unfolding yq h_def by auto
  have "round_even y
          = (if q < h * h then k else if h * h < q then k + 1 else if even k then k else k + 1)"
    unfolding round_even_def Let_def fy c1 c2 ..
  then have "Math_sqrt a = of_int (round_even y) * u"
    using pos unfolding Math_sqrt_def Let_def ue q_def [symmetric] k_def [symmetric] h_def [symmetric]
    by simp
  then have "Math_sqrt a = of_int (round_even (z / u)) * u" by (simp add: y_def)
  then show ?thesis using z0 by (simp add: rnd_def u_def z_def)
qed

lemma round_even_near:
  assumes "of_int N - 1 / 2 < z" "z < of_int N + 1 / 2"
  shows "round_even z = N"
proof (cases "of_int N \<le> z")
  case True
  then have f: "\<lfloor>z\<rfloor> = N" using assms(2) by (simp add: floor_eq_iff)
  then show ?thesis using assms(2) by (simp add: round_even_def Let_def)
next
  case False
  then have f: "\<lfloor>z\<rfloor> = N - 1" using assms(1) by (simp add: floor_eq_iff)
  then show ?thesis using assms(1) by (simp add: round_even_def Let_def)
qed

lemma js_round_nearest: "nearest_pixel x (js_round x)"
  unfolding nearest_pixel_def js_round_def by linarith

lemma js_round_of_int: "js_round (of_int n) = n"
  unfolding js_round_def by linarith

lemma sqrt_less_10: "sqrt a < 10 \<longleftrightarrow> a < 100"
proof -
  have "sqrt 100 = 10" using real_sqrt_abs [of 10] by simp
  then show ?thesis using real_sqrt_less_iff [of a 100] by simp
qed

lemma rnd_10: "rnd 10 = 10"
  using rnd_int [of 10] by simp

lemma rnd_below_10: "rnd (319 / 32) = 319 / 32"
  using rnd_eval [of 3 "319 / 32"] by (simp add: round_even_def pow2_def Let_def)

text \<open>The rounded square root of a whole number is below 10 exactly when the number is
  below 100.\<close>

lemma rnd_sqrt_less_10:
  assumes "0 \<le> s" and "s < 2 ^ 53"
  shows "rnd (sqrt (of_int s)) < 10 \<longleftrightarrow> s < 100"
proof (cases "s < 100")
  case True
  show ?thesis
  proof (cases "s = 0")
    case True
    then show ?thesis by (simp add: rnd_zero)
  next
    case False
    with assms have pos: "0 < sqrt (of_int s)" by simp
    have "real_of_int s \<le> (319 / 32)\<^sup>2" using True by (simp add: power2_eq_square)
    then have "sqrt (of_int s) \<le> 319 / 32" by (intro real_le_lsqrt) simp_all
    from rnd_mono [OF pos this] have "rnd (sqrt (of_int s)) \<le> 319 / 32"
      by (simp add: rnd_below_10 pow2_def)
    with True show ?thesis by simp
  qed
next
  case False
  then have "(100::real) \<le> of_int s" by simp
  then have ten: "10 \<le> sqrt (of_int s)" using sqrt_less_10 [of "of_int s"] by simp
  have "sqrt (of_int s) \<le> of_int s" using \<open>100 \<le> of_int s\<close> by (intro real_le_lsqrt) (simp_all add: power2_eq_square)
  also have "real_of_int s < 2 ^ 53" using assms(2) by (metis of_int_less_numeral_power_cancel_iff)
  finally have "sqrt (of_int s) < pow2 1024" by (simp add: pow2_def)
  from rnd_mono [OF _ ten this] have "10 \<le> rnd (sqrt (of_int s))" by (simp add: rnd_10)
  with False show ?thesis by simp
qed

lemma double_distance_pixels:
  assumes "whole_pixel a0 x0" "whole_pixel b0 y0" "whole_pixel a1 x1" "whole_pixel b1 y1"
  shows "double_distance x0 y0 x1 y1 < 10 \<longleftrightarrow> (a1 - a0)\<^sup>2 + (b1 - b0)\<^sup>2 < 100"
proof -
  define dx where "dx = a1 - a0"
  define dy where "dy = b1 - b0"
  have bx: "\<bar>dx\<bar> < 2 ^ 26"
    using assms(1,3) unfolding whole_pixel_def dx_def by simp linarith
  have by': "\<bar>dy\<bar> < 2 ^ 26"
    using assms(2,4) unfolding whole_pixel_def dy_def by simp linarith
  have "\<bar>dx\<bar>\<^sup>2 < (2 ^ 26)\<^sup>2" using bx by (intro power_strict_mono) simp_all
  then have sx: "dx\<^sup>2 < 2 ^ 52" by simp
  have "\<bar>dy\<bar>\<^sup>2 < (2 ^ 26)\<^sup>2" using by' by (intro power_strict_mono) simp_all
  then have sy: "dy\<^sup>2 < 2 ^ 52" by simp
  have rx: "rnd (x1 - x0) = of_int dx"
    using rnd_int [of dx] bx assms by (simp add: whole_pixel_def dx_def)
  have ry: "rnd (y1 - y0) = of_int dy"
    using rnd_int [of dy] by' assms by (simp add: whole_pixel_def dy_def)
  have px: "rnd ((of_int dx)\<^sup>2) = of_int (dx\<^sup>2)"
    using rnd_int [of "dx\<^sup>2"] sx by simp
  have py: "rnd ((of_int dy)\<^sup>2) = of_int (dy\<^sup>2)"
    using rnd_int [of "dy\<^sup>2"] sy by simp
  have sm: "rnd (of_int (dx\<^sup>2) + of_int (dy\<^sup>2)) = of_int (dx\<^sup>2 + dy\<^sup>2)"
    using rnd_int [of "dx\<^sup>2 + dy\<^sup>2"] sx sy by simp
  have "double_distance x0 y0 x1 y1 = rnd (sqrt (of_int (dx\<^sup>2 + dy\<^sup>2)))"
    by (simp only: double_distance_def rx ry px py sm)
  then show ?thesis using rnd_sqrt_less_10 [of "dx\<^sup>2 + dy\<^sup>2"] sx sy by (simp add: dx_def dy_def)
qed

lemma rnd_just_below_8: "rnd just_below_8 = just_below_8"
  using rnd_eval [of 2 "8 - 1 / 2 ^ 50"]
  by (simp add: just_below_8_def round_even_def pow2_def Let_def)

lemma rnd_square_below_8: "rnd (just_below_8\<^sup>2) = 64 - 1 / 2 ^ 46"
  using rnd_eval [of 5 "(8 - 1 / 2 ^ 50)\<^sup>2"]
  by (simp add: just_below_8_def round_even_def pow2_def Let_def power2_eq_square)

lemma rnd_sum_below_100: "rnd (36 + (64 - 1 / 2 ^ 46)) = 100 - 1 / 2 ^ 46"
  using rnd_eval [of 6 "36 + (64 - 1 / 2 ^ 46)"] by (simp add: round_even_def pow2_def Let_def)

lemma rnd_sqrt_below_100: "rnd (sqrt (100 - 1 / 2 ^ 46)) = 10"
proof -
  define z where "z = sqrt (100 - 1 / 2 ^ 46)"
  have "(10 - 1 / 2 ^ 50)\<^sup>2 < (100 - 1 / 2 ^ 46 :: real)" by (simp add: power2_eq_square)
  then have lo: "10 - 1 / 2 ^ 50 < z" unfolding z_def by (rule real_less_rsqrt)
  have hi: "z < 10" unfolding z_def by (simp add: sqrt_less_10)
  have "round_even (z / pow2 (3 - 52)) = 10 * 2 ^ 49"
    using lo hi by (intro round_even_near) (simp_all add: pow2_def)
  moreover have "rnd z = of_int (round_even (z / pow2 (3 - 52))) * pow2 (3 - 52)"
    using lo hi by (intro rnd_eval) (simp_all add: pow2_def)
  ultimately have "rnd z = 10" by (simp add: pow2_def)
  then show ?thesis by (simp add: z_def)
qed

lemma double_distance_below_10: "double_distance 0 0 6 just_below_8 = 10"
proof -
  have a: "rnd (6 - 0) = 6" using rnd_int [of 6] by simp
  have b: "rnd (6\<^sup>2) = 36" using rnd_int [of 36] by simp
  have c: "rnd (just_below_8 - 0) = just_below_8" by (simp add: rnd_just_below_8)
  show ?thesis
    unfolding double_distance_def a b c rnd_square_below_8 rnd_sum_below_100 rnd_sqrt_below_100 ..
qed

lemma js_round_just_below_8: "js_round just_below_8 = 8"
  by (simp add: js_round_def just_below_8_def)

lemma round_even_minus: "round_even (- y) = - round_even y"
proof (cases "y = of_int \<lfloor>y\<rfloor>")
  case True
  then obtain n where "y = of_int n" ..
  then have "- y = of_int (- n)" by simp
  then show ?thesis using \<open>y = of_int n\<close> by (simp only: round_even_of_int)
next
  case False
  then have f: "\<lfloor>- y\<rfloor> = - \<lfloor>y\<rfloor> - 1"
    by (simp add: floor_minus ceiling_altdef)
  show ?thesis
    unfolding round_even_def Let_def f using False by (auto simp: algebra_simps)
qed

lemma rnd_minus: "rnd (- x) = - rnd x"
proof -
  have "ulp (- x) = ulp x" by (simp add: ulp_def binade_def)
  then show ?thesis using round_even_minus [of "x / ulp x"] by (simp add: rnd_def)
qed

lemma rnd_numeral: "numeral k < (2::int) ^ 53 \<Longrightarrow> rnd (numeral k) = numeral k"
  using rnd_int [of "numeral k"] by simp

lemma rnd_one: "rnd 1 = 1"
  using rnd_int [of 1] by simp


lemma rnd_scroll_values:
  "rnd (1 / 2) = 1 / 2"
  "rnd (1 / 4) = 1 / 4"
  "rnd (1 / 8) = 1 / 8"
  "rnd (1 / 50) = 5764607523034235 / 288230376151711744"
  "rnd (1152921504606847 / 11529215046068469760) = 7378697629483821 / 73786976294838206464"
  "rnd (7378697629483821 / 73786976294838206464) = 7378697629483821 / 73786976294838206464"
  "rnd (9230750734484259629 / 73786976294838206464) = 563400313384049 / 4503599627370496"
  "rnd (1 / 10) = 3602879701896397 / 36028797018963968"
  "rnd (1 / 5) = 3602879701896397 / 18014398509481984"
  "rnd (3602879701896397 / 36028797018963968) = 3602879701896397 / 36028797018963968"
  "rnd (10808639105689191 / 36028797018963968) = 1351079888211149 / 4503599627370496"
  "rnd (3 / 10) = 5404319552844595 / 18014398509481984"
  using rnd_eval [of "- 1" "1 / 2"]
        rnd_eval [of "- 2" "1 / 4"]
        rnd_eval [of "- 3" "1 / 8"]
        rnd_eval [of "- 6" "1 / 50"]
        rnd_eval [of "- 14" "1152921504606847 / 11529215046068469760"]
        rnd_eval [of "- 14" "7378697629483821 / 73786976294838206464"]
        rnd_eval [of "- 3" "9230750734484259629 / 73786976294838206464"]
        rnd_eval [of "- 4" "1 / 10"]
        rnd_eval [of "- 3" "1 / 5"]
        rnd_eval [of "- 4" "3602879701896397 / 36028797018963968"]
        rnd_eval [of "- 2" "10808639105689191 / 36028797018963968"]
        rnd_eval [of "- 2" "3 / 10"]
  by (simp_all add: round_even_def pow2_def Let_def)

subsection \<open>Properties of the framing loop\<close>

lemma be32_arith:
  fixes n :: nat
  assumes "n < 4294967296"
  shows "n div 16777216 mod 256 * 16777216 + n div 65536 mod 256 * 65536
          + n div 256 mod 256 * 256 + n mod 256 = n"
proof -
  have a: "n div 16777216 mod 256 = n div 16777216" using assms by simp
  have b1: "n div 65536 div 256 = n div 16777216"
    using div_mult2_eq [of n 65536 256] by simp
  have c1: "n div 256 div 256 = n div 65536"
    using div_mult2_eq [of n 256 256] by simp
  have b: "n div 65536 = n div 16777216 * 256 + n div 65536 mod 256"
    using div_mult_mod_eq [of "n div 65536" 256] b1 by simp
  have c: "n div 256 = n div 65536 * 256 + n div 256 mod 256"
    using div_mult_mod_eq [of "n div 256" 256] c1 by simp
  have d: "n = n div 256 * 256 + n mod 256" by simp
  show ?thesis using a b c d by linarith
qed

lemma readUInt32BE_write:
  assumes "n < 4294967296"
  shows "readUInt32BE (t # writeUInt32BE n @ rest) 1 = Inr n"
proof -
  have a: "n div 16777216 mod 256 = n div 16777216" using assms by simp
  show ?thesis
    using be32_arith [OF assms] a
    by (simp add: readUInt32BE_def writeUInt32BE_def unat_of_nat)
qed

lemma readUInt8_cons: "readUInt8 (t # rest) 0 = Inr t"
  by (simp add: readUInt8_def)

lemma length_writeUInt32BE: "length (writeUInt32BE n) = 4"
  by (simp add: writeUInt32BE_def)

lemma processLoop_short: "length buf < 5 \<Longrightarrow> processLoop buf acc = Inr (acc, buf)"
  by (simp add: processLoop.simps)

lemma processLoop_incomplete:
  assumes "5 \<le> length buf" and "readUInt32BE buf 1 = Inr n" and "length buf < 5 + n"
  shows "processLoop buf acc = Inr (acc, buf)"
proof -
  have "0 < length buf" using assms(1) by (cases buf) auto
  then have "readUInt8 buf 0 = Inr (buf ! 0)" by (simp add: readUInt8_def)
  with assms show ?thesis by (subst processLoop.simps) simp
qed

lemma processLoop_frame:
  assumes "valid_message m"
  shows "processLoop (writeMessage m @ rest) acc = processLoop rest (acc @ [m])"
proof -
  obtain t p where m: "m = (t, p)" by (cases m)
  have n: "length p < 4294967296" using assms m by (simp add: valid_message_def)
  define hdr where "hdr = t # writeUInt32BE (length p)"
  define b where "b = writeMessage m @ rest"
  have hdr: "b = hdr @ p @ rest" and lh: "length hdr = 5"
    by (simp_all add: b_def hdr_def writeMessage_def m length_writeUInt32BE)
  have r8: "readUInt8 b 0 = Inr t"
    by (simp add: b_def writeMessage_def m readUInt8_cons)
  have r32: "readUInt32BE b 1 = Inr (length p)"
    using readUInt32BE_write [OF n, of t "p @ rest"] by (simp add: b_def writeMessage_def m)
  have len: "length b = 5 + length p + length rest"
    using lh by (simp add: hdr)
  have pay: "subarray b 5 (5 + length p) = p"
    unfolding hdr subarray_def using lh by simp
  have rst: "subarray_from b (5 + length p) = rest"
    unfolding hdr subarray_from_def using lh by simp
  have "processLoop b acc = processLoop rest (acc @ [(t, p)])"
    using r8 r32 len pay rst by (subst processLoop.simps) simp
  then show ?thesis by (simp add: b_def m)
qed

lemma processLoop_frames:
  assumes "\<forall>m \<in> set msgs. valid_message m"
  shows "processLoop (concat (map writeMessage msgs) @ rest) acc = processLoop rest (acc @ msgs)"
  using assms
proof (induction msgs arbitrary: acc)
  case Nil
  then show ?case by simp
next
  case (Cons m msgs)
  then show ?case by (simp add: processLoop_frame)
qed

text \<open>Bytes arriving later do not change what the loop has already decided.\<close>

lemma processLoop_append:
  "processLoop buf acc = Inr (ms, r) \<Longrightarrow> processLoop (buf @ c) acc = processLoop (r @ c) ms"
proof (induction buf acc rule: processLoop.induct)
  case (1 buf acc)
  show ?case
  proof (cases "5 \<le> length buf")
    case False
    then have "processLoop buf acc = Inr (acc, buf)" by (simp add: processLoop_short)
    with "1.prems" show ?thesis by simp
  next
    case True
    obtain n where n: "readUInt32BE buf 1 = Inr n"
      using True by (simp add: readUInt32BE_def)
    have pos: "0 < length buf" using True by (cases buf) auto
    have t: "readUInt8 buf 0 = Inr (buf ! 0)"
      using pos by (simp add: readUInt8_def)
    show ?thesis
    proof (cases "length buf < 5 + n")
      case True
      with \<open>5 \<le> length buf\<close> n have "processLoop buf acc = Inr (acc, buf)"
        by (rule processLoop_incomplete)
      with "1.prems" show ?thesis by simp
    next
      case False
      let ?rest = "subarray_from buf (5 + n)"
      let ?acc = "acc @ [(buf ! 0, subarray buf 5 (5 + n))]"
      have step: "processLoop buf acc = processLoop ?rest ?acc"
        using True False n t by (subst processLoop.simps) simp
      with "1.prems" have "processLoop ?rest ?acc = Inr (ms, r)" by simp
      with "1.IH" [OF True t n] False
      have ih: "processLoop (?rest @ c) ?acc = processLoop (r @ c) ms" by simp
      have n': "readUInt32BE (buf @ c) 1 = Inr n"
        using True n by (simp add: readUInt32BE_def nth_append)
      have t': "readUInt8 (buf @ c) 0 = Inr (buf ! 0)"
        using pos by (simp add: readUInt8_def nth_append)
      have "processLoop (buf @ c) acc
            = processLoop (subarray_from (buf @ c) (5 + n))
                (acc @ [(buf ! 0, subarray (buf @ c) 5 (5 + n))])"
        using True False n' t' by (subst processLoop.simps) simp
      also have "subarray_from (buf @ c) (5 + n) = ?rest @ c"
        using False by (simp add: subarray_from_def)
      also have "subarray (buf @ c) 5 (5 + n) = subarray buf 5 (5 + n)"
        using False by (simp add: subarray_def)
      finally show ?thesis using ih by simp
    qed
  qed
qed

lemma processLoop_step:
  assumes "5 \<le> length buf" and "readUInt32BE buf 1 = Inr n" and "\<not> length buf < 5 + n"
  shows "processLoop buf acc
         = processLoop (subarray_from buf (5 + n)) (acc @ [(buf ! 0, subarray buf 5 (5 + n))])"
proof -
  have "0 < length buf" using assms(1) by (cases buf) auto
  then have "readUInt8 buf 0 = Inr (buf ! 0)" by (simp add: readUInt8_def)
  with assms show ?thesis by (subst processLoop.simps) simp
qed

lemma readUInt32BE_in_range: "5 \<le> length buf \<Longrightarrow> \<exists>n. readUInt32BE buf 1 = Inr n"
  by (simp add: readUInt32BE_def)

text \<open>The loop never raises, and what it delivers does not depend on what was delivered before.\<close>

lemma processLoop_acc:
  "\<exists>ms r. processLoop buf [] = Inr (ms, r) \<and> processLoop buf acc = Inr (acc @ ms, r)"
proof (induction "length buf" arbitrary: buf acc rule: less_induct)
  case less
  show ?case
  proof (cases "5 \<le> length buf")
    case False
    then show ?thesis by (simp add: processLoop_short)
  next
    case True
    then obtain n where n: "readUInt32BE buf 1 = Inr n"
      using readUInt32BE_in_range by blast
    show ?thesis
    proof (cases "length buf < 5 + n")
      case True
      with \<open>5 \<le> length buf\<close> n show ?thesis by (simp add: processLoop_incomplete)
    next
      case False
      let ?rest = "subarray_from buf (5 + n)"
      let ?m = "(buf ! 0, subarray buf 5 (5 + n))"
      have shorter: "length ?rest < length buf"
        using True by (simp add: subarray_from_def)
      from less [OF shorter, of "acc @ [?m]"]
      obtain ms r where e: "processLoop ?rest [] = Inr (ms, r)"
        and a: "processLoop ?rest (acc @ [?m]) = Inr ((acc @ [?m]) @ ms, r)"
        by blast
      from less [OF shorter, of "[?m]"] e
      have s: "processLoop ?rest [?m] = Inr ([?m] @ ms, r)" by simp
      have "processLoop buf [] = Inr (?m # ms, r)"
        using processLoop_step [OF True n False, of "[]"] s by simp
      moreover have "processLoop buf acc = Inr (acc @ ?m # ms, r)"
        using processLoop_step [OF True n False, of acc] a by simp
      ultimately show ?thesis by blast
    qed
  qed
qed

lemma handleHelperDataAll_run:
  assumes "processLoop pre [] = Inr (done, messageBuffer c)"
  shows "\<exists>ms buf. handleHelperDataAll chunks c = Inr (ms, c\<lparr>messageBuffer := buf\<rparr>)
           \<and> processLoop (pre @ concat chunks) [] = Inr (done @ ms, buf)"
  using assms
proof (induction chunks arbitrary: pre "done" c)
  case Nil
  then show ?case by simp
next
  case (Cons chunk chunks)
  from processLoop_acc [of "messageBuffer c @ chunk" "done"]
  obtain ms r where one: "processLoop (messageBuffer c @ chunk) [] = Inr (ms, r)"
    and acc: "processLoop (messageBuffer c @ chunk) done = Inr (done @ ms, r)"
    by blast
  have pre: "processLoop (pre @ chunk) [] = Inr (done @ ms, r)"
    using processLoop_append [OF Cons.prems, of chunk] acc by simp
  have h: "handleHelperData chunk c = Inr (ms, c\<lparr>messageBuffer := r\<rparr>)"
    by (simp add: handleHelperData_def one)
  from Cons.IH [of "pre @ chunk" "done @ ms" "c\<lparr>messageBuffer := r\<rparr>"] pre
  obtain ms' buf where
    rest: "handleHelperDataAll chunks (c\<lparr>messageBuffer := r\<rparr>)
             = Inr (ms', c\<lparr>messageBuffer := buf\<rparr>)"
    and all: "processLoop ((pre @ chunk) @ concat chunks) [] = Inr ((done @ ms) @ ms', buf)"
    by auto
  show ?case using h rest all by simp
qed

lemma processLoop_partial:
  assumes "valid_message m" and "p @ s = writeMessage m" and "s \<noteq> []"
  shows "processLoop p acc = Inr (acc, p)"
proof (cases "5 \<le> length p")
  case False
  then show ?thesis by (simp add: processLoop_short)
next
  case True
  then obtain n where n: "readUInt32BE p 1 = Inr n"
    using readUInt32BE_in_range by blast
  have "readUInt32BE (p @ s) 1 = Inr n"
    using True n by (simp add: readUInt32BE_def nth_append)
  moreover have "readUInt32BE (writeMessage m) 1 = Inr (length (snd m))"
    using readUInt32BE_write [of "length (snd m)" "fst m" "snd m"] assms(1)
    by (simp add: writeMessage_def valid_message_def)
  ultimately have nn: "n = length (snd m)" using assms(2) by simp
  have "length (p @ s) = 5 + length (snd m)"
    by (simp add: assms(2) writeMessage_def length_writeUInt32BE)
  moreover have "1 \<le> length s" using assms(3) by (cases s) simp_all
  ultimately have "length p < 5 + n" unfolding nn length_append by linarith
  with True n show ?thesis by (rule processLoop_incomplete)
qed

subsection \<open>Claim C1\<close>

text \<open>
  C1. Framing is chunk-invariant. Let \<open>msgs\<close> be any messages whose payload lengths fit
  the four length bytes, and \<open>chunks\<close> any way of cutting the concatenation of their
  frames into successive chunks (empty chunks included). Feeding the chunks one after the
  other to \<^verbatim>\<open>handleHelperData\<close>, from the empty buffer, raises nothing, hands
  \<^verbatim>\<open>processMessage\<close> exactly the messages \<open>msgs\<close>, each with its type and whole payload,
  in stream order, and leaves the buffer empty. When the stream stops inside a further
  frame, the same messages are delivered and the bytes \<open>p\<close> of the unfinished frame stay in
  the buffer, all of them. And whenever the buffer after a chunk starts with a header whose
  declared length exceeds the bytes present, that call delivers nothing and keeps every
  byte for the next call.
\<close>

theorem framing_chunk_invariant:
  "((\<forall>m \<in> set msgs. valid_message m) \<and> concat chunks = concat (map writeMessage msgs)
     \<longrightarrow> handleHelperDataAll chunks \<lparr>messageBuffer = []\<rparr>
           = Inr (msgs, \<lparr>messageBuffer = []\<rparr>))
   \<and> ((\<forall>m \<in> set msgs. valid_message m) \<and> valid_message m \<and> p @ s = writeMessage m \<and> s \<noteq> []
        \<and> concat chunks = concat (map writeMessage msgs) @ p
     \<longrightarrow> handleHelperDataAll chunks \<lparr>messageBuffer = []\<rparr>
           = Inr (msgs, \<lparr>messageBuffer = p\<rparr>))
   \<and> (5 \<le> length (messageBuffer c @ chunk)
        \<and> readUInt32BE (messageBuffer c @ chunk) 1 = Inr n
        \<and> length (messageBuffer c @ chunk) < 5 + n
     \<longrightarrow> handleHelperData chunk c
           = Inr ([], c\<lparr>messageBuffer := messageBuffer c @ chunk\<rparr>))"
proof -
  have start: "processLoop [] [] = Inr ([], messageBuffer \<lparr>messageBuffer = []\<rparr>)"
    by (simp add: processLoop_short)
  have run: "handleHelperDataAll chunks \<lparr>messageBuffer = []\<rparr> = Inr (msgs, \<lparr>messageBuffer = rest\<rparr>)"
    if v: "\<forall>m \<in> set msgs. valid_message m"
      and c: "concat chunks = concat (map writeMessage msgs) @ rest"
      and r: "processLoop rest msgs = Inr (msgs, rest)" for rest
  proof -
    from handleHelperDataAll_run [OF start, of chunks]
    obtain ms buf where
      h: "handleHelperDataAll chunks \<lparr>messageBuffer = []\<rparr> = Inr (ms, \<lparr>messageBuffer = buf\<rparr>)"
      and whole: "processLoop (concat chunks) [] = Inr (ms, buf)"
      by auto
    have "processLoop (concat (map writeMessage msgs) @ rest) [] = processLoop rest ([] @ msgs)"
      using v by (rule processLoop_frames)
    with c r have "processLoop (concat chunks) [] = Inr (msgs, rest)" by simp
    with whole have "ms = msgs" and "buf = rest" by simp_all
    with h show ?thesis by simp
  qed
  show ?thesis
  proof (intro conjI impI)
    assume "(\<forall>m \<in> set msgs. valid_message m) \<and> concat chunks = concat (map writeMessage msgs)"
    then show "handleHelperDataAll chunks \<lparr>messageBuffer = []\<rparr> = Inr (msgs, \<lparr>messageBuffer = []\<rparr>)"
      using run [of "[]"] by (simp add: processLoop_short)
  next
    assume a: "(\<forall>m \<in> set msgs. valid_message m) \<and> valid_message m \<and> p @ s = writeMessage m \<and> s \<noteq> []
        \<and> concat chunks = concat (map writeMessage msgs) @ p"
    then have "processLoop p msgs = Inr (msgs, p)" by (intro processLoop_partial [of m p s]) simp_all
    with a show "handleHelperDataAll chunks \<lparr>messageBuffer = []\<rparr> = Inr (msgs, \<lparr>messageBuffer = p\<rparr>)"
      using run [of p] by simp
  next
    assume "5 \<le> length (messageBuffer c @ chunk)
        \<and> readUInt32BE (messageBuffer c @ chunk) 1 = Inr n
        \<and> length (messageBuffer c @ chunk) < 5 + n"
    then show "handleHelperData chunk c = Inr ([], c\<lparr>messageBuffer := messageBuffer c @ chunk\<rparr>)"
      by (simp add: handleHelperData_def processLoop_incomplete)
  qed
qed

text \<open>
  Two frames, a status message \<^verbatim>\<open>06 00 00 00 02 4f 4b\<close> and an empty video frame
  \<^verbatim>\<open>04 00 00 00 00\<close>, cut into four chunks that split both headers; the same stream
  followed by the first six bytes of an error message of three bytes; and a lone header
  announcing nine bytes of which one has arrived.
\<close>

theorem framing_chunk_invariant_witness:
  "handleHelperDataAll [[6, 0, 0], [0, 2, 79], [75, 4, 0, 0, 0], [0]] \<lparr>messageBuffer = []\<rparr>
     = Inr ([(6, [79, 75]), (4, [])], \<lparr>messageBuffer = []\<rparr>)
   \<and> handleHelperDataAll [[6, 0, 0], [0, 2, 79], [75, 4, 0, 0, 0], [0], [5, 0, 0, 0, 3, 101]]
       \<lparr>messageBuffer = []\<rparr>
     = Inr ([(6, [79, 75]), (4, [])], \<lparr>messageBuffer = [5, 0, 0, 0, 3, 101]\<rparr>)
   \<and> handleHelperData [0, 0, 9, 1] \<lparr>messageBuffer = [2, 0]\<rparr>
     = Inr ([], \<lparr>messageBuffer = [2, 0, 0, 0, 9, 1]\<rparr>)"
  using framing_chunk_invariant
    [of "[(6, [79, 75]), (4, [])]" "[[6, 0, 0], [0, 2, 79], [75, 4, 0, 0, 0], [0]]"
        "(5, [101, 114, 114])" "[5, 0, 0, 0, 3, 101]" "[114, 114]"
        "\<lparr>messageBuffer = [2, 0]\<rparr>" "[0, 0, 9, 1]" 9]
    framing_chunk_invariant
    [of "[(6, [79, 75]), (4, [])]" "[[6, 0, 0], [0, 2, 79], [75, 4, 0, 0, 0], [0], [5, 0, 0, 0, 3, 101]]"
        "(5, [101, 114, 114])" "[5, 0, 0, 0, 3, 101]" "[114, 114]"
        "\<lparr>messageBuffer = [2, 0]\<rparr>" "[0, 0, 9, 1]" 9]
  by (simp add: valid_message_def writeMessage_def writeUInt32BE_def readUInt32BE_def)

subsection \<open>Properties of the scanning loops\<close>

lemma ex_from:
  "(\<exists>j\<ge>i. int j < n \<and> Q j) \<longleftrightarrow> (int i < n \<and> (Q i \<or> (\<exists>j\<ge>i + 1. int j < n \<and> Q j)))"
proof
  assume "\<exists>j\<ge>i. int j < n \<and> Q j"
  then obtain j where j: "i \<le> j" "int j < n" "Q j" by blast
  show "int i < n \<and> (Q i \<or> (\<exists>j\<ge>i + 1. int j < n \<and> Q j))"
  proof (cases "j = i")
    case True with j show ?thesis by simp
  next
    case False
    with j have "i + 1 \<le> j" by simp
    with j show ?thesis by auto
  qed
next
  assume h: "int i < n \<and> (Q i \<or> (\<exists>j\<ge>i + 1. int j < n \<and> Q j))"
  then consider "Q i" | j where "i + 1 \<le> j" "int j < n" "Q j" by blast
  then show "\<exists>j\<ge>i. int j < n \<and> Q j"
  proof cases
    case 1
    with h show ?thesis by (intro exI [of _ i]) simp
  next
    case 2
    then show ?thesis by (intro exI [of _ j]) simp
  qed
qed

lemma elem_in_range:
  "int i < int (length data) - 4 \<Longrightarrow>
     elem data (i + 4) = Some (data ! (i + 4)) \<and> elem data (i + 3) = Some (data ! (i + 3))"
  by (simp add: elem_def)

lemma containsH264IDR_loop_iff:
  "containsH264IDR_loop data i \<longleftrightarrow>
     (\<exists>j\<ge>i. int j < int (length data) - 4 \<and> unit_at h264_type data j = Some H264_IDR)"
proof (induction data i rule: containsH264IDR_loop.induct)
  case (1 data i)
  show ?case
    apply (subst containsH264IDR_loop.simps)
    apply (subst ex_from)
    using 1 elem_in_range [of i data]
    apply (auto simp: unit_at_def h264_type_def to_int32_def Let_def sc3_def sc4_def)
    done
qed

lemma containsH265IDR_loop_iff:
  "containsH265IDR_loop data i \<longleftrightarrow>
     (\<exists>j\<ge>i. int j < int (length data) - 4
        \<and> (unit_at h265_type data j = Some H265_IDR_W_RADL
           \<or> unit_at h265_type data j = Some H265_IDR_N_LP))"
proof (induction data i rule: containsH265IDR_loop.induct)
  case (1 data i)
  show ?case
    apply (subst containsH265IDR_loop.simps)
    apply (subst ex_from)
    using 1 elem_in_range [of i data]
    apply (auto simp: unit_at_def h265_type_def to_int32_def Let_def sc3_def sc4_def)
    done
qed

lemma findH264SPS_loop_iff:
  "findH264SPS_loop config i \<noteq> None \<longleftrightarrow>
     (\<exists>j\<ge>i. int j < int (length config) - 4 \<and> unit_at h264_type config j = Some H264_SPS)"
proof (induction config i rule: findH264SPS_loop.induct)
  case (1 config i)
  show ?case
    apply (subst findH264SPS_loop.simps)
    apply (subst ex_from)
    using 1 elem_in_range [of i config]
    apply (auto simp: unit_at_def h264_type_def to_int32_def Let_def sc3_def sc4_def)
    done
qed

lemma findH265ConfigNAL_loop_iff:
  "findH265ConfigNAL_loop config i \<longleftrightarrow>
     (\<exists>j\<ge>i. int j < int (length config) - 4
        \<and> (unit_at h265_type config j = Some H265_VPS
           \<or> unit_at h265_type config j = Some H265_SPS
           \<or> unit_at h265_type config j = Some H265_PPS))"
proof (induction config i rule: findH265ConfigNAL_loop.induct)
  case (1 config i)
  show ?case
    apply (subst findH265ConfigNAL_loop.simps)
    apply (subst ex_from)
    using 1 elem_in_range [of i config]
    apply (auto simp: unit_at_def h265_type_def to_int32_def Let_def sc3_def sc4_def)
    done
qed

text \<open>What the scans decide: a unit counts when its start code begins at least five bytes
  before the end of the buffer.\<close>

lemma containsKeyFrame_iff:
  "containsKeyFrame data codec \<longleftrightarrow>
     (case codec of
        H264 \<Rightarrow> \<exists>j. int j < int (length data) - 4 \<and> unit_at h264_type data j = Some H264_IDR
      | H265 \<Rightarrow> \<exists>j. int j < int (length data) - 4
                  \<and> (unit_at h265_type data j = Some H265_IDR_W_RADL
                     \<or> unit_at h265_type data j = Some H265_IDR_N_LP)
      | AV1 \<Rightarrow> False)"
  by (cases codec)
     (simp_all add: containsKeyFrame_def containsH264IDR_def containsH265IDR_def
        containsH264IDR_loop_iff containsH265IDR_loop_iff)

lemma detectCodec_h264_iff:
  "detectCodec config = Some H264 \<longleftrightarrow>
     (\<exists>j. int j < int (length config) - 4 \<and> unit_at h264_type config j = Some H264_SPS)"
  using findH264SPS_loop_iff [of config 0]
  by (auto simp: detectCodec_def findH264SPS_def)

lemma unit_at_start_code: "unit_at ty data j = Some t \<Longrightarrow> sc3 data j \<or> sc4 data j"
  by (auto simp: unit_at_def split: if_splits)

lemma start_code_in_range: "sc3 data j \<or> sc4 data j \<Longrightarrow> j < length data"
  by (auto simp: sc3_def sc4_def elem_def split: if_splits)

lemma detectCodec_no_start_code: "\<not> has_start_code config \<Longrightarrow> detectCodec config = None"
proof -
  assume n: "\<not> has_start_code config"
  have no: "\<And>ty j t. unit_at ty config j \<noteq> Some t"
    using n unit_at_start_code start_code_in_range unfolding has_start_code_def by blast
  have "findH264SPS config = None"
    using findH264SPS_loop_iff [of config 0] no by (simp add: findH264SPS_def)
  moreover have "\<not> findH265ConfigNAL config"
    using findH265ConfigNAL_loop_iff [of config 0] no by (simp add: findH265ConfigNAL_def)
  ultimately show ?thesis by (simp add: detectCodec_def)
qed

lemma findH264SPS_short: "length config < 5 \<Longrightarrow> findH264SPS config = None"
  using findH264SPS_loop_iff [of config 0] by (auto simp: findH264SPS_def)

text \<open>What the scan for the SPS returns: the bytes of the first SPS unit it meets.\<close>

lemma findH264SPS_loop_hit:
  assumes "int i < int (length config) - 4" and "unit_at h264_type config i = Some H264_SPS"
  shows "findH264SPS_loop config i = Some (unit_bytes config i)"
  apply (subst findH264SPS_loop.simps)
  using assms elem_in_range [of i config]
  apply (auto simp: unit_at_def unit_bytes_def subarray_from_def h264_type_def to_int32_def Let_def
              split: if_splits)
  done

lemma findH264SPS_loop_miss:
  assumes "unit_at h264_type config i \<noteq> Some H264_SPS"
  shows "findH264SPS_loop config i = findH264SPS_loop config (i + 1)"
proof (cases "int i < int (length config) - 4")
  case True
  show ?thesis
    apply (subst findH264SPS_loop.simps)
    using assms True elem_in_range [of i config]
    apply (auto simp: unit_at_def h264_type_def to_int32_def Let_def split: if_splits)
    done
next
  case False
  then have "findH264SPS_loop config i = None" "findH264SPS_loop config (i + 1) = None"
    by (simp_all add: findH264SPS_loop.simps)
  then show ?thesis by simp
qed

lemma findH264SPS_loop_first:
  assumes "i \<le> j" and "int j < int (length config) - 4"
    and "unit_at h264_type config j = Some H264_SPS"
    and "\<forall>k. i \<le> k \<and> k < j \<longrightarrow> unit_at h264_type config k \<noteq> Some H264_SPS"
  shows "findH264SPS_loop config i = Some (unit_bytes config j)"
  using assms
proof (induction "j - i" arbitrary: i)
  case 0
  then have "i = j" by simp
  with 0 show ?case by (simp add: findH264SPS_loop_hit)
next
  case (Suc n)
  then have lt: "i < j" by simp
  with Suc.prems have "unit_at h264_type config i \<noteq> Some H264_SPS" by simp
  then have "findH264SPS_loop config i = findH264SPS_loop config (i + 1)"
    by (rule findH264SPS_loop_miss)
  moreover have "findH264SPS_loop config (i + 1) = Some (unit_bytes config j)"
    using Suc.hyps(2) Suc.prems lt by (intro Suc.hyps(1)) auto
  ultimately show ?case by simp
qed

lemma findH264SPS_first: "first_sps_at config j \<Longrightarrow> findH264SPS config = Some (unit_bytes config j)"
  unfolding first_sps_at_def findH264SPS_def by (intro findH264SPS_loop_first) auto

lemma findH264SPS_none:
  "(\<forall>j. int j < int (length config) - 4 \<longrightarrow> unit_at h264_type config j \<noteq> Some H264_SPS)
     \<Longrightarrow> findH264SPS config = None"
  using findH264SPS_loop_iff [of config 0] by (auto simp: findH264SPS_def)

subsection \<open>Claim C2\<close>

text \<open>
  C2 says that the result is \<^verbatim>\<open>null\<close> on every buffer that holds no well-formed SPS,
  truncated units included. The function checks nothing of the unit itself. On the fixture
  \<^verbatim>\<open>INVALID_DATA.truncated\<close>, a start code and the header byte \<^verbatim>\<open>0x67\<close> alone, the
  scan finds the unit of one byte and the result is what the parser makes of that byte:
  \<^verbatim>\<open>null\<close> only if the parser throws, dimensions whenever it returns fields. (The unit
  test of this fixture asks that the call does not throw, not that it returns \<^verbatim>\<open>null\<close>.)
\<close>

theorem truncated_unit_counterexample:
  "(\<forall>parseSPS. parseH264SPSDimensions parseSPS [0, 0, 0, 1, 0x67]
       = (case parseSPS [0x67] of Inl e \<Rightarrow> None | Inr sps \<Rightarrow> Some (dimensions_of_sps sps)))
   \<and> (\<forall>sps. parseH264SPSDimensions (\<lambda>d. Inr sps) [0, 0, 0, 1, 0x67] \<noteq> None)"
proof -
  have f: "findH264SPS [0, 0, 0, 1, 0x67] = Some [0x67]"
    by (simp add: findH264SPS_def findH264SPS_loop.simps sc3_def sc4_def elem_def to_int32_def
        H264_SPS_def subarray_from_def)
  show ?thesis
    by (simp add: parseH264SPSDimensions_def f)
qed

text \<open>
  C2, as the code has it. \<^verbatim>\<open>parseH264SPSDimensions\<close> never throws: the scan before the
  \<^verbatim>\<open>try\<close> block reads the array without raising, and every exception of the parser is
  caught and becomes \<^verbatim>\<open>null\<close>. When the scan meets an SPS unit, the parser is given the
  bytes from the header of the first one to the end of the buffer, and the result is
  \<^verbatim>\<open>null\<close> if the parser throws and the dimensions computed from its fields otherwise,
  whether the unit is well-formed or not. When no start code that begins at least five bytes
  before the end of the buffer is followed by a unit of type 7, the result is \<^verbatim>\<open>null\<close>
  whatever the parser; in particular on the empty buffer, on every buffer shorter than five
  bytes and on every buffer without a start code.
\<close>

theorem parseH264SPSDimensions_null:
  "(first_sps_at config j \<longrightarrow>
      parseH264SPSDimensions parseSPS config
        = (case parseSPS (unit_bytes config j) of
             Inl e \<Rightarrow> None
           | Inr sps \<Rightarrow> Some (dimensions_of_sps sps)))
   \<and> ((\<forall>j. int j < int (length config) - 4 \<longrightarrow> unit_at h264_type config j \<noteq> Some H264_SPS) \<longrightarrow>
        parseH264SPSDimensions parseSPS config = None)
   \<and> (length config < 5 \<longrightarrow> parseH264SPSDimensions parseSPS config = None)
   \<and> (\<not> has_start_code config \<longrightarrow> parseH264SPSDimensions parseSPS config = None)"
proof (intro conjI impI)
  assume "first_sps_at config j"
  then have "findH264SPS config = Some (unit_bytes config j)" by (rule findH264SPS_first)
  then show "parseH264SPSDimensions parseSPS config
        = (case parseSPS (unit_bytes config j) of
             Inl e \<Rightarrow> None
           | Inr sps \<Rightarrow> Some (dimensions_of_sps sps))"
    by (simp add: parseH264SPSDimensions_def)
next
  assume "\<forall>j. int j < int (length config) - 4 \<longrightarrow> unit_at h264_type config j \<noteq> Some H264_SPS"
  then have "findH264SPS config = None" by (rule findH264SPS_none)
  then show "parseH264SPSDimensions parseSPS config = None"
    by (simp add: parseH264SPSDimensions_def)
next
  assume "length config < 5"
  then show "parseH264SPSDimensions parseSPS config = None"
    by (simp add: parseH264SPSDimensions_def findH264SPS_short)
next
  assume "\<not> has_start_code config"
  then have "detectCodec config = None" by (rule detectCodec_no_start_code)
  then have "findH264SPS config = None" by (simp add: detectCodec_def split: if_splits)
  then show "parseH264SPSDimensions parseSPS config = None"
    by (simp add: parseH264SPSDimensions_def)
qed

text \<open>A parameter set after a picture parameter set, with a parser that rejects it; the
  fixture \<^verbatim>\<open>H264_SPS_1920x1080\<close>; a picture parameter set alone; the fixtures
  \<^verbatim>\<open>tooShort\<close> and \<^verbatim>\<open>noStartCode\<close>.\<close>

lemma first_sps_fixture: "first_sps_at H264_SPS_1920x1080 0"
  by (simp add: first_sps_at_def unit_at_def H264_SPS_1920x1080_def sc3_def sc4_def elem_def
      h264_type_def H264_SPS_def)

lemma first_sps_after_pps:
  "first_sps_at [0, 0, 0, 1, 0x68, 0xee, 0, 0, 1, 0x67, 0x42, 0] 6"
  unfolding first_sps_at_def
proof (intro conjI allI impI)
  fix k :: nat
  assume "k < 6"
  then consider "k = 0" | "k = 1" | "k = 2" | "k = 3" | "k = 4" | "k = 5" by linarith
  then show "unit_at h264_type [0, 0, 0, 1, 0x68, 0xee, 0, 0, 1, 0x67, 0x42, 0] k \<noteq> Some H264_SPS"
    by cases (simp_all add: unit_at_def sc3_def sc4_def elem_def h264_type_def H264_SPS_def)
qed (simp_all add: unit_at_def sc3_def sc4_def elem_def h264_type_def H264_SPS_def)

lemma no_start_code_fixture: "\<not> has_start_code [1, 2, 3, 4, 5]"
  unfolding has_start_code_def
proof (intro notI, elim exE conjE)
  fix i :: nat
  assume "i < length [1, 2, 3, 4, 5 :: byte]"
    and s: "sc3 [1, 2, 3, 4, 5] i \<or> sc4 [1, 2, 3, 4, 5] i"
  then consider "i = 0" | "i = 1" | "i = 2" | "i = 3" | "i = 4" by fastforce
  then show False using s by cases (simp_all add: sc3_def sc4_def elem_def)
qed

theorem parseH264SPSDimensions_null_witness:
  "parseH264SPSDimensions (\<lambda>d. if d = [0x67, 0x42, 0] then Inl SPSParseError else Inr sps_1920x1080)
       [0, 0, 0, 1, 0x68, 0xee, 0, 0, 1, 0x67, 0x42, 0] = None
   \<and> parseH264SPSDimensions (\<lambda>d. if d = [0x67, 0x42, 0] then Inl SPSParseError else Inr sps_1920x1080)
       H264_SPS_1920x1080 = Some \<lparr>width = 1920, height = 1080\<rparr>
   \<and> parseH264SPSDimensions (\<lambda>d. Inr sps_1920x1080) [0, 0, 0, 1, 0x68, 0xee, 0x3c, 0x80] = None
   \<and> parseH264SPSDimensions (\<lambda>d. Inr sps_1920x1080) [0, 1] = None
   \<and> parseH264SPSDimensions (\<lambda>d. Inr sps_1920x1080) [1, 2, 3, 4, 5] = None"
proof -
  let ?P = "\<lambda>d. if d = [0x67, 0x42, 0] then Inl SPSParseError else Inr sps_1920x1080"
  from parseH264SPSDimensions_null [of "[0, 0, 0, 1, 0x68, 0xee, 0, 0, 1, 0x67, 0x42, 0]" 6 ?P]
       first_sps_after_pps
  have one: "parseH264SPSDimensions ?P [0, 0, 0, 1, 0x68, 0xee, 0, 0, 1, 0x67, 0x42, 0] = None"
    by (simp add: unit_bytes_def sc3_def elem_def)
  from parseH264SPSDimensions_null [of H264_SPS_1920x1080 0 ?P] first_sps_fixture
  have two: "parseH264SPSDimensions ?P H264_SPS_1920x1080 = Some \<lparr>width = 1920, height = 1080\<rparr>"
    by (simp add: unit_bytes_def sc3_def elem_def H264_SPS_1920x1080_def dimensions_of_sps_def
        sps_1920x1080_def)
  have no_sps: "\<forall>j. int j < int (length [0, 0, 0, 1, 0x68, 0xee, 0x3c, 0x80 :: byte]) - 4 \<longrightarrow>
                  unit_at h264_type [0, 0, 0, 1, 0x68, 0xee, 0x3c, 0x80] j \<noteq> Some H264_SPS"
  proof (intro allI impI)
    fix j :: nat
    assume "int j < int (length [0, 0, 0, 1, 0x68, 0xee, 0x3c, 0x80 :: byte]) - 4"
    then consider "j = 0" | "j = 1" | "j = 2" | "j = 3" by fastforce
    then show "unit_at h264_type [0, 0, 0, 1, 0x68, 0xee, 0x3c, 0x80] j \<noteq> Some H264_SPS"
      by cases (simp_all add: unit_at_def sc3_def sc4_def elem_def h264_type_def H264_SPS_def)
  qed
  from parseH264SPSDimensions_null [of "[0, 0, 0, 1, 0x68, 0xee, 0x3c, 0x80]" 0 "\<lambda>d. Inr sps_1920x1080"]
       no_sps
  have three: "parseH264SPSDimensions (\<lambda>d. Inr sps_1920x1080) [0, 0, 0, 1, 0x68, 0xee, 0x3c, 0x80] = None"
    by simp
  from parseH264SPSDimensions_null [of "[0, 1]" 0 "\<lambda>d. Inr sps_1920x1080"]
  have four: "parseH264SPSDimensions (\<lambda>d. Inr sps_1920x1080) [0, 1] = None" by simp
  from parseH264SPSDimensions_null [of "[1, 2, 3, 4, 5]" 0 "\<lambda>d. Inr sps_1920x1080"]
       no_start_code_fixture
  have five: "parseH264SPSDimensions (\<lambda>d. Inr sps_1920x1080) [1, 2, 3, 4, 5] = None"
    by blast
  show ?thesis using one two three four five by simp
qed

subsection \<open>Claim C9\<close>

text \<open>
  C9. Whenever the scan finds an SPS unit and the library parses it, the dimensions returned
  are: width = \<open>pic_width_in_mbs * 16 - (crop_left + crop_right) * SubWidthC\<close> and height =
  \<open>pic_height_in_map_units * 16 * (2 - frame_mbs_only_flag)
   - (crop_top + crop_bottom) * SubHeightC * (2 - frame_mbs_only_flag)\<close>, with
  \<open>(SubWidthC, SubHeightC)\<close> = (2, 1) for chroma format 2, (1, 1) for chroma format 3 and (2, 2)
  otherwise, and with nothing subtracted when \<open>frame_cropping_flag\<close> is 0.
\<close>

theorem h264_dimensions_formula:
  assumes "findH264SPS config = Some d" and "parseSPS d = Inr sps"
  shows "parseH264SPSDimensions parseSPS config =
     Some \<lparr>width = pic_width_in_mbs sps * 16
                   - (if frame_cropping_flag sps = 0 then 0
                      else (left (frame_cropping sps) + right (frame_cropping sps))
                           * SubWidthC (chroma_format_idc sps)),
           height = pic_height_in_map_units sps * 16 * (2 - frame_mbs_only_flag sps)
                   - (if frame_cropping_flag sps = 0 then 0
                      else (top' (frame_cropping sps) + bottom (frame_cropping sps))
                           * SubHeightC (chroma_format_idc sps) * (2 - frame_mbs_only_flag sps))\<rparr>"
  using assms
  by (simp add: parseH264SPSDimensions_def dimensions_of_sps_def SubWidthC_def SubHeightC_def Let_def
      algebra_simps)

lemma findH264SPS_fixture:
  "findH264SPS H264_SPS_1920x1080 = Some (drop 4 H264_SPS_1920x1080)"
  by (simp add: findH264SPS_def findH264SPS_loop.simps H264_SPS_1920x1080_def sc3_def sc4_def
      elem_def to_int32_def H264_SPS_def subarray_from_def)

theorem h264_dimensions_formula_witness:
  "parseH264SPSDimensions (\<lambda>d. Inr sps_1920x1080) H264_SPS_1920x1080
     = Some \<lparr>width = 1920, height = 1080\<rparr>"
  using h264_dimensions_formula [of H264_SPS_1920x1080 "drop 4 H264_SPS_1920x1080"
          "\<lambda>d. Inr sps_1920x1080" sps_1920x1080] findH264SPS_fixture
  by (simp add: sps_1920x1080_def SubWidthC_def SubHeightC_def)

subsection \<open>Claim C3\<close>

text \<open>
  C3. \<^verbatim>\<open>detectCodec\<close> answers \<^verbatim>\<open>h264\<close> exactly when an SPS unit follows a start code that
  begins at least five bytes before the end of the buffer (\<open>detectCodec_h264_iff\<close>), and
  \<^verbatim>\<open>null\<close> on every buffer without a start code (\<open>detectCodec_no_start_code\<close>). The claim
  asks for \<^verbatim>\<open>h264\<close> on every buffer in which a start code is followed by a byte of type 7,
  and for \<^verbatim>\<open>h265\<close> when it is followed by a byte of type 32, 33 or 34. The buffer
  \<^verbatim>\<open>00 00 01 67\<close> holds a three-byte start code followed by an SPS header and is answered
  \<^verbatim>\<open>null\<close>, although the same header after the four-byte start code is found; likewise the
  H.265 SPS header in \<^verbatim>\<open>00 00 01 42\<close>.
\<close>

theorem detectCodec_misses_final_unit:
  "detectCodec [0x00, 0x00, 0x01, 0x67] = None
   \<and> contains_unit h264_type [0x00, 0x00, 0x01, 0x67] H264_SPS
   \<and> detectCodec [0x00, 0x00, 0x00, 0x01, 0x67] = Some H264
   \<and> detectCodec [0x00, 0x00, 0x01, 0x42] = None
   \<and> contains_unit h265_type [0x00, 0x00, 0x01, 0x42] H265_SPS"
  by code_simp

subsection \<open>Claim C4\<close>

text \<open>
  C4. \<^verbatim>\<open>containsKeyFrame\<close> is false for AV1 on every buffer, and for H.264 and H.265 it is
  true exactly when a keyframe unit follows a start code that begins at least five bytes
  before the end of the buffer (\<open>containsKeyFrame_iff\<close>). The claim asks for every start code
  of the buffer, those near its end included. In \<^verbatim>\<open>01 00 00 01 65\<close> a three-byte start code
  is followed by an IDR header and the answer is false, although \<^verbatim>\<open>00 00 00 01 65\<close> is
  answered true; likewise the H.265 IDR header in \<^verbatim>\<open>00 00 01 26\<close>.
\<close>

theorem containsKeyFrame_misses_final_unit:
  "containsKeyFrame [0x01, 0x00, 0x00, 0x01, 0x65] H264 = False
   \<and> contains_unit h264_type [0x01, 0x00, 0x00, 0x01, 0x65] H264_IDR
   \<and> containsKeyFrame [0x00, 0x00, 0x00, 0x01, 0x65] H264 = True
   \<and> containsKeyFrame [0x00, 0x00, 0x01, 0x26] H265 = False
   \<and> contains_unit h265_type [0x00, 0x00, 0x01, 0x26] H265_IDR_W_RADL"
  by code_simp

subsection \<open>Properties of the WDA client\<close>

lemma request_effect:
  "request srv m path b (c, w) = (r, c', w') \<Longrightarrow>
     c' = c \<and> w' = w @ [\<lparr>http_method = m, url = baseUrl c @ path, body = b\<rparr>]"
  by (auto simp: request_def Let_def split: response.splits)

lemma request_unit_effect:
  assumes "request_unit srv m path b (c, w) = (r, c', w')"
  shows "c' = c \<and> w' = w @ [\<lparr>http_method = m, url = baseUrl c @ path, body = b\<rparr>]"
proof -
  obtain r0 c0 w0 where rq: "request srv m path b (c, w) = (r0, c0, w0)"
    by (metis prod_cases3)
  from request_effect [OF rq] assms rq show ?thesis
    by (cases r0) (auto simp: request_unit_def)
qed

lemma createSession_effect:
  assumes "createSession srv (c, w) = (r, c', w')"
  shows "w' = w @ [\<lparr>http_method = ''POST'', url = baseUrl c @ ''/session'', body = Some Capabilities\<rparr>]
         \<and> (case r of Inl e \<Rightarrow> c' = c
               | Inr sid \<Rightarrow> sid \<noteq> [] \<and> c' = c\<lparr>sessionId := Some sid\<rparr>)"
proof -
  obtain r0 c0 w0 where rq: "request srv ''POST'' ''/session'' (Some Capabilities) (c, w) = (r0, c0, w0)"
    by (metis prod_cases3)
  from request_effect [OF rq] have c0: "c0 = c"
    and w0: "w0 = w @ [\<lparr>http_method = ''POST'', url = baseUrl c @ ''/session'', body = Some Capabilities\<rparr>]"
    by simp_all
  show ?thesis
    using assms rq c0 w0
    by (auto simp: createSession_def truthy_def Let_def
             split: sum.splits json.splits option.splits if_splits)
qed

lemma ensureSession_stored:
  "sessionId c = Some sid \<Longrightarrow> sid \<noteq> [] \<Longrightarrow> ensureSession srv (c, w) = (Inr sid, c, w)"
  by (simp add: ensureSession_def truthy_def)

lemma ensureSession_effect:
  assumes "ensureSession srv (c, w) = (r, c', w')"
  shows "(w' = w \<or> w' = w @ [\<lparr>http_method = ''POST'', url = baseUrl c @ ''/session'', body = Some Capabilities\<rparr>])
         \<and> (case r of Inl e \<Rightarrow> c' = c
               | Inr sid \<Rightarrow> sid \<noteq> [] \<and> c' = c\<lparr>sessionId := Some sid\<rparr>)"
proof (cases "truthy (sessionId c)")
  case True
  then obtain sid where "sessionId c = Some sid" "sid \<noteq> []"
    by (auto simp: truthy_def split: option.splits)
  with assms ensureSession_stored [of c sid srv w] show ?thesis by auto
next
  case False
  with assms have "createSession srv (c, w) = (r, c', w')" by (simp add: ensureSession_def)
  from createSession_effect [OF this] show ?thesis by simp
qed

lemma performTap_effect:
  "performTap srv sid x y (c, w) = (r, c', w') \<Longrightarrow>
     c' = c \<and> w' = w @ [actions_request c sid (tap_chain (js_round x) (js_round y))]"
  unfolding performTap_def
  by (drule request_unit_effect) (simp add: actions_request_def tap_chain_def)

lemma performSwipe_effect:
  "performSwipe srv sid x0 y0 x1 y1 200 (c, w) = (r, c', w') \<Longrightarrow>
     c' = c \<and> w' = w @ [actions_request c sid
                               (swipe_chain (js_round x0) (js_round y0) (js_round x1) (js_round y1))]"
  unfolding performSwipe_def
  by (drule request_unit_effect) (simp add: actions_request_def swipe_chain_def)

lemma session_request_no_action:
  "\<not> is_actions_request \<lparr>http_method = m, url = u, body = Some Capabilities\<rparr>"
  by (simp add: is_actions_request_def)

lemma actions_request_no_session: "\<not> is_session_request (actions_request c sid chain)"
  by (simp add: is_session_request_def actions_request_def)

lemma request_unit_stored:
  assumes "sessionId c = Some sid" and "b \<noteq> Capabilities"
  shows "stored_effect sid w (request_unit srv m path (Some b) (c, w))"
proof -
  obtain r c' w' where rq: "request_unit srv m path (Some b) (c, w) = (r, c', w')"
    by (metis prod_cases3)
  have ns: "\<not> is_session_request \<lparr>http_method = m, url = baseUrl c @ path, body = Some b\<rparr>"
    using assms(2) by (cases b) (simp_all add: is_session_request_def)
  from request_unit_effect [OF rq]
  have "c' = c" and "w' = w @ [\<lparr>http_method = m, url = baseUrl c @ path, body = Some b\<rparr>]"
    by simp_all
  with ns assms(1) show ?thesis
    unfolding stored_effect_def rq by auto
qed

lemma stored_effect_same: "sessionId c = Some sid \<Longrightarrow> stored_effect sid w (Inr u, c, w)"
  by (simp add: stored_effect_def)

lemma touch_stored:
  assumes "sessionId c = Some sid" and "sid \<noteq> []"
  shows "stored_effect sid w (touch srv action x y (c, w))"
proof -
  have es: "ensureSession srv (c, w) = (Inr sid, c, w)"
    using assms by (rule ensureSession_stored)
  show ?thesis
  proof (cases action)
    case Down
    then show ?thesis using es assms by (simp add: touch_def stored_effect_def)
  next
    case Move
    then show ?thesis using es assms by (simp add: touch_def stored_effect_def)
  next
    case Up
    show ?thesis
    proof (cases "touchActive c")
      case False
      with Up es assms show ?thesis by (simp add: touch_def stored_effect_def)
    next
      case True
      have s: "sessionId (c\<lparr>touchActive := False\<rparr>) = Some sid" using assms by simp
      from request_unit_stored [OF s, of _ w srv]
      show ?thesis using Up True es
        by (simp add: touch_def Let_def performTap_def performSwipe_def)
    qed
  qed
qed

lemma scroll_stored:
  assumes "sessionId c = Some sid" and "sid \<noteq> []"
  shows "stored_effect sid w (scroll srv x y dx dy (c, w))"
proof -
  have es: "ensureSession srv (c, w) = (Inr sid, c, w)"
    using assms by (rule ensureSession_stored)
  from request_unit_stored [OF assms(1), of _ w srv] stored_effect_same [OF assms(1)]
  show ?thesis using es by (simp add: scroll_def Let_def)
qed

lemma typeText_stored:
  assumes "sessionId c = Some sid" and "sid \<noteq> []"
  shows "stored_effect sid w (typeText srv text (c, w))"
proof -
  have es: "ensureSession srv (c, w) = (Inr sid, c, w)"
    using assms by (rule ensureSession_stored)
  from request_unit_stored [OF assms(1), of _ w srv]
  show ?thesis using es by (simp add: typeText_def)
qed

lemma pressButton_stored:
  assumes "sessionId c = Some sid" and "sid \<noteq> []"
  shows "stored_effect sid w (pressButton srv b (c, w))"
proof -
  have es: "ensureSession srv (c, w) = (Inr sid, c, w)"
    using assms by (rule ensureSession_stored)
  from request_unit_stored [OF assms(1), of _ w srv]
  show ?thesis using es by (simp add: pressButton_def)
qed

lemma perform_stored:
  assumes "sessionId c = Some sid" and "sid \<noteq> []"
  shows "stored_effect sid w (perform srv call (c, w))"
  using assms touch_stored scroll_stored typeText_stored pressButton_stored
  by (cases call) simp_all

lemma touch_distance:
  "Math_sqrt (js_add (Math_pow (js_sub x1 x0) 2) (Math_pow (js_sub y1 y0) 2))
     = double_distance x0 y0 x1 y1"
proof -
  have "0 \<le> rnd ((rnd (x1 - x0))\<^sup>2) + rnd ((rnd (y1 - y0))\<^sup>2)"
    by (intro add_nonneg_nonneg rnd_nonneg) simp_all
  then have "0 \<le> rnd (rnd ((rnd (x1 - x0))\<^sup>2) + rnd ((rnd (y1 - y0))\<^sup>2))"
    by (rule rnd_nonneg)
  then show ?thesis
    by (simp add: Math_sqrt_rnd js_add_def Math_pow_def js_sub_def double_distance_def)
qed

lemma up_after_down:
  assumes down: "touch srv Down x0 y0 (c, w) = (Inr u, c1, w1)"
  shows "\<exists>r c2 sid.
           touch srv Up x1 y1 (c1, w1)
             = (r, c2, w1 @ [actions_request c sid
                               (if double_distance x0 y0 x1 y1 < 10
                                then tap_chain (js_round x0) (js_round y0)
                                else swipe_chain (js_round x0) (js_round y0) (js_round x1) (js_round y1))])
           \<and> sessionId c1 = Some sid
           \<and> \<not> touchActive c2
           \<and> filter is_actions_request (drop (length w) w1) = []"
proof -
  obtain r0 c0 w0 where es: "ensureSession srv (c, w) = (r0, c0, w0)" by (metis prod_cases3)
  with down obtain sid where r0: "r0 = Inr sid"
    by (cases r0) (auto simp: touch_def)
  from ensureSession_effect [OF es] r0
  have sid: "sid \<noteq> []" and c0: "c0 = c\<lparr>sessionId := Some sid\<rparr>"
    and w0: "w0 = w \<or> w0 = w @ [\<lparr>http_method = ''POST'', url = baseUrl c @ ''/session'', body = Some Capabilities\<rparr>]"
    by simp_all
  from down es r0 have c1: "c1 = c0\<lparr>touchActive := True, touchStartX := x0, touchStartY := y0\<rparr>"
    and w1: "w1 = w0" by (simp_all add: touch_def)
  have stored: "sessionId c1 = Some sid" by (simp add: c1 c0)
  have es': "ensureSession srv (c1, w1) = (Inr sid, c1, w1)"
    using stored sid by (rule ensureSession_stored)
  let ?c2 = "c1\<lparr>touchActive := False\<rparr>"
  let ?tap = "tap_chain (js_round x0) (js_round y0)"
  let ?swipe = "swipe_chain (js_round x0) (js_round y0) (js_round x1) (js_round y1)"
  have noact: "filter is_actions_request (drop (length w) w1) = []"
    using w0 w1 by (auto simp: session_request_no_action)
  show ?thesis
  proof (cases "double_distance x0 y0 x1 y1 < 10")
    case True
    obtain r c2 w2 where tap: "performTap srv sid x0 y0 (?c2, w1) = (r, c2, w2)"
      by (metis prod_cases3)
    from performTap_effect [OF tap]
    have "c2 = ?c2" and "w2 = w1 @ [actions_request ?c2 sid ?tap]" by simp_all
    moreover have "actions_request ?c2 sid ?tap = actions_request c sid ?tap"
      by (simp add: actions_request_def c1 c0)
    moreover have "touch srv Up x1 y1 (c1, w1) = (r, c2, w2)"
      using es' True tap by (simp add: touch_def touch_distance c1)
    ultimately show ?thesis using True stored noact by auto
  next
    case False
    obtain r c2 w2 where sw: "performSwipe srv sid x0 y0 x1 y1 200 (?c2, w1) = (r, c2, w2)"
      by (metis prod_cases3)
    from performSwipe_effect [OF sw]
    have "c2 = ?c2" and "w2 = w1 @ [actions_request ?c2 sid ?swipe]" by simp_all
    moreover have "actions_request ?c2 sid ?swipe = actions_request c sid ?swipe"
      by (simp add: actions_request_def c1 c0)
    moreover have "touch srv Up x1 y1 (c1, w1) = (r, c2, w2)"
      using es' False sw by (simp add: touch_def touch_distance c1)
    ultimately show ?thesis using False stored noact by auto
  qed
qed

subsection \<open>Claim C6\<close>

text \<open>
  C6 says that the gesture is a tap whenever the Euclidean distance of the two points is
  below 10. The code compares the distance it computes in double arithmetic, and near the
  threshold the two differ. After \<^verbatim>\<open>touch('down', 0, 0)\<close> the call
  \<^verbatim>\<open>touch('up', 6, 7.999999999999999)\<close> is at a distance below 10, yet the square of
  the second difference rounds to \<open>64 - 1 / 2 ^ 46\<close>, the sum is \<open>100 - 1 / 2 ^ 46\<close>,
  its square root rounds to 10, and the request sent is the swipe chain.
\<close>

theorem tap_threshold_counterexample:
  "sqrt ((6 - 0)\<^sup>2 + (just_below_8 - 0)\<^sup>2) < 10
   \<and> rnd just_below_8 = just_below_8
   \<and> snd (snd (touch ok_server Up 6 just_below_8 (snd (touch ok_server Down 0 0 (new_client, [])))))
       = [session_request new_client,
          \<lparr>http_method = ''POST'', url = ''http://localhost:8100/session/s1/actions'',
           body = Some (Actions [PointerMove 0 0 0, PointerDown 0, PointerMove 200 6 8,
                                 PointerUp 0])\<rparr>]"
proof (intro conjI)
  show "sqrt ((6 - 0)\<^sup>2 + (just_below_8 - 0)\<^sup>2) < 10"
    by (simp add: sqrt_less_10 power2_eq_square just_below_8_def)
  show "rnd just_below_8 = just_below_8" by (rule rnd_just_below_8)
  have r: "js_round 6 = 6" "js_round 0 = 0"
    by (simp_all add: js_round_def)
  show "snd (snd (touch ok_server Up 6 just_below_8 (snd (touch ok_server Down 0 0 (new_client, [])))))
       = [session_request new_client,
          \<lparr>http_method = ''POST'', url = ''http://localhost:8100/session/s1/actions'',
           body = Some (Actions [PointerMove 0 0 0, PointerDown 0, PointerMove 200 6 8,
                                 PointerUp 0])\<rparr>]"
    by (simp add: touch_def touch_distance double_distance_below_10
          ensureSession_def createSession_def request_def request_unit_def ok_server_def
          new_client_def truthy_def session_request_def performSwipe_def r js_round_just_below_8)
qed

text \<open>
  C6, as the code has it. Let \<^verbatim>\<open>touch('down', x0, y0)\<close> return normally, from any client
  state and against any remote end (so a session exists, stored before or created by this
  call), and let \<^verbatim>\<open>touch('up', x1, y1)\<close> follow. The down call issues no pointer-action
  request. The up call issues exactly one request, a pointer-action request to the stored
  session: the tap chain (move, press, pause 50, release) at the pixel of the start point
  when the distance of the two points, as double arithmetic computes it, is below 10, the
  swipe chain (press at the pixel of the start point, move in 200 ms to the pixel of the end
  point, release) otherwise; whatever the answer to it, no second request follows, and the
  touch is no longer active. When the four coordinates are whole pixels, the computed
  distance is below 10 exactly when the Euclidean distance is: the gesture is the tap at
  \<open>(a0, b0)\<close> when \<open>(a1 - a0)\<^sup>2 + (b1 - b0)\<^sup>2 < 100\<close> and the swipe from \<open>(a0, b0)\<close> to
  \<open>(a1, b1)\<close> otherwise.
\<close>

theorem touch_down_up_one_action:
  assumes down: "touch srv Down x0 y0 (c, w) = (Inr u, c1, w1)"
  shows "(\<exists>r c2 sid px0 py0 px1 py1.
            touch srv Up x1 y1 (c1, w1)
              = (r, c2, w1 @ [actions_request c sid
                                (if double_distance x0 y0 x1 y1 < 10 then tap_chain px0 py0
                                 else swipe_chain px0 py0 px1 py1)])
            \<and> nearest_pixel x0 px0 \<and> nearest_pixel y0 py0
            \<and> nearest_pixel x1 px1 \<and> nearest_pixel y1 py1
            \<and> sessionId c1 = Some sid
            \<and> \<not> touchActive c2
            \<and> filter is_actions_request (drop (length w) w1) = [])
         \<and> (whole_pixel a0 x0 \<and> whole_pixel b0 y0 \<and> whole_pixel a1 x1 \<and> whole_pixel b1 y1 \<longrightarrow>
              (\<exists>r c2.
                 touch srv Up x1 y1 (c1, w1)
                   = (r, c2, w1 @ [actions_request c (the (sessionId c1))
                                     (if (a1 - a0)\<^sup>2 + (b1 - b0)\<^sup>2 < 100 then tap_chain a0 b0
                                      else swipe_chain a0 b0 a1 b1)])))"
proof (intro conjI impI)
  from up_after_down [OF down, of x1 y1]
  show "\<exists>r c2 sid px0 py0 px1 py1.
            touch srv Up x1 y1 (c1, w1)
              = (r, c2, w1 @ [actions_request c sid
                                (if double_distance x0 y0 x1 y1 < 10 then tap_chain px0 py0
                                 else swipe_chain px0 py0 px1 py1)])
            \<and> nearest_pixel x0 px0 \<and> nearest_pixel y0 py0
            \<and> nearest_pixel x1 px1 \<and> nearest_pixel y1 py1
            \<and> sessionId c1 = Some sid
            \<and> \<not> touchActive c2
            \<and> filter is_actions_request (drop (length w) w1) = []"
    using js_round_nearest by blast
next
  assume p: "whole_pixel a0 x0 \<and> whole_pixel b0 y0 \<and> whole_pixel a1 x1 \<and> whole_pixel b1 y1"
  then have r: "js_round x0 = a0" "js_round y0 = b0" "js_round x1 = a1" "js_round y1 = b1"
    by (simp_all add: whole_pixel_def js_round_of_int)
  from p have d: "double_distance x0 y0 x1 y1 < 10 \<longleftrightarrow> (a1 - a0)\<^sup>2 + (b1 - b0)\<^sup>2 < 100"
    by (intro double_distance_pixels) simp_all
  from up_after_down [OF down, of x1 y1]
  show "\<exists>r c2.
          touch srv Up x1 y1 (c1, w1)
            = (r, c2, w1 @ [actions_request c (the (sessionId c1))
                              (if (a1 - a0)\<^sup>2 + (b1 - b0)\<^sup>2 < 100 then tap_chain a0 b0
                               else swipe_chain a0 b0 a1 b1)])"
    unfolding r d by auto
qed

text \<open>The scenario of the specification: down at (100, 200), then up at (102, 201) or
  at (300, 200), on a fresh client whose session is created by the down call.\<close>

lemma touch_down_ok:
  "touch ok_server Down 100 200 (new_client, [])
     = (Inr (), new_client\<lparr>sessionId := Some ''s1'', touchActive := True,
                            touchStartX := 100, touchStartY := 200\<rparr>,
        [session_request new_client])"
  by (simp add: touch_def ensureSession_def createSession_def request_def ok_server_def
      new_client_def truthy_def session_request_def)

theorem touch_down_up_one_action_witness:
  "fst (touch ok_server Down 100 200 (new_client, [])) = Inr ()
   \<and> snd (snd (touch ok_server Up 102 201 after_down))
       = [session_request new_client,
          \<lparr>http_method = ''POST'', url = ''http://localhost:8100/session/s1/actions'',
           body = Some (Actions [PointerMove 0 100 200, PointerDown 0, Pause 50, PointerUp 0])\<rparr>]
   \<and> snd (snd (touch ok_server Up 300 200 after_down))
       = [session_request new_client,
          \<lparr>http_method = ''POST'', url = ''http://localhost:8100/session/s1/actions'',
           body = Some (Actions [PointerMove 0 100 200, PointerDown 0, PointerMove 200 300 200,
                                 PointerUp 0])\<rparr>]"
proof -
  note d = touch_down_ok
  have p: "whole_pixel 100 100" "whole_pixel 200 200" "whole_pixel 102 102" "whole_pixel 201 201"
    "whole_pixel 300 300"
    by (simp_all add: whole_pixel_def)
  from touch_down_up_one_action [OF d, of 102 201 100 200 102 201] p
  have tap: "snd (snd (touch ok_server Up 102 201 after_down))
       = [session_request new_client, actions_request new_client ''s1'' (tap_chain 100 200)]"
    by (auto simp: after_down_def d)
  from touch_down_up_one_action [OF d, of 300 200 100 200 300 200] p
  have swipe: "snd (snd (touch ok_server Up 300 200 after_down))
       = [session_request new_client, actions_request new_client ''s1'' (swipe_chain 100 200 300 200)]"
    by (auto simp: after_down_def d)
  show ?thesis using d tap swipe
    by (simp add: actions_request_def tap_chain_def swipe_chain_def new_client_def)
qed

subsection \<open>Claim C10\<close>

text \<open>
  C10. When the touch is not active, \<^verbatim>\<open>touch('move', x, y)\<close> and \<^verbatim>\<open>touch('up', x, y)\<close>
  issue no pointer-action request, whatever the remote end answers: the call issues
  nothing, or only the session request of \<^verbatim>\<open>ensureSession\<close>, and the touch stays
  inactive.
\<close>

theorem touch_inactive_no_action:
  assumes "\<not> touchActive c" and "action = Move \<or> action = Up"
    and "touch srv action x y (c, w) = (r, c', w')"
  shows "\<not> touchActive c'
         \<and> (w' = w \<or> w' = w @ [session_request c])
         \<and> filter is_actions_request (drop (length w) w') = []"
proof -
  obtain r0 c0 w0 where es: "ensureSession srv (c, w) = (r0, c0, w0)" by (metis prod_cases3)
  from ensureSession_effect [OF es]
  have w0: "w0 = w \<or> w0 = w @ [session_request c]"
    and c0: "touchActive c0 = touchActive c"
    by (auto simp: session_request_def split: sum.splits)
  have "c' = c0 \<and> w' = w0"
    using assms es c0 by (cases r0) (auto simp: touch_def)
  with w0 c0 assms(1) show ?thesis
    by (auto simp: session_request_def session_request_no_action)
qed

theorem touch_inactive_no_action_witness:
  "touch ok_server Up 100 200 (new_client, [])
     = (Inr (), new_client\<lparr>sessionId := Some ''s1''\<rparr>, [session_request new_client])
   \<and> \<not> touchActive (new_client\<lparr>sessionId := Some ''s1''\<rparr>)
   \<and> filter is_actions_request [session_request new_client] = []"
proof -
  have t: "touch ok_server Up 100 200 (new_client, [])
     = (Inr (), new_client\<lparr>sessionId := Some ''s1''\<rparr>, [session_request new_client])"
    by (simp add: touch_def ensureSession_def createSession_def request_def ok_server_def
      new_client_def truthy_def session_request_def)
  have n: "\<not> touchActive new_client" by (simp add: new_client_def)
  from touch_inactive_no_action [OF n _ t] t show ?thesis by simp
qed

subsection \<open>Claim C7\<close>

text \<open>
  C7 says that a request failing because the remote session is gone invalidates the stored
  session id, so that the next call creates a session. No path of the client clears the id
  on a failed request. Here the stored session \<^verbatim>\<open>dead\<close> is gone and every request is
  answered 404: \<^verbatim>\<open>typeText\<close> raises and leaves the client as it was, and the following
  \<^verbatim>\<open>pressButton\<close> goes to the same session, with no session request before it.
\<close>

theorem session_not_invalidated_counterexample:
  "typeText gone_server ''a'' (stale_client, [])
     = (Inl (WDARequestFailed 404 ''invalid session id''), stale_client,
        [\<lparr>http_method = ''POST'', url = ''http://localhost:8100/session/dead/wda/keys'',
          body = Some (KeysBody [''a''])\<rparr>])
   \<and> snd (snd (pressButton gone_server ''home'' (snd (typeText gone_server ''a'' (stale_client, [])))))
     = [\<lparr>http_method = ''POST'', url = ''http://localhost:8100/session/dead/wda/keys'',
          body = Some (KeysBody [''a''])\<rparr>,
        \<lparr>http_method = ''POST'', url = ''http://localhost:8100/session/dead/wda/pressButton'',
          body = Some (ButtonBody ''home'')\<rparr>]
   \<and> sessionId stale_client = Some ''dead''"
  by (simp add: typeText_def pressButton_def ensureSession_def request_unit_def request_def
      gone_server_def stale_client_def new_client_def truthy_def)

text \<open>
  C7, as the code has it. While a session id is stored, an action call that raises has
  issued exactly one request and is not retried; the id stays stored, and the next action
  call, whatever its outcome, issues at most one request, none of them a session request.
\<close>

theorem session_kept_after_failure:
  assumes stored: "sessionId c = Some sid" "sid \<noteq> []"
    and failing: "perform srv call1 (c, w) = (Inl e, c1, w1)"
    and following: "perform srv call2 (c1, w1) = (r, c2, w2)"
  shows "length w1 = length w + 1
         \<and> take (length w) w1 = w
         \<and> sessionId c1 = Some sid
         \<and> take (length w1) w2 = w1
         \<and> length w2 \<le> length w1 + 1
         \<and> sessionId c2 = Some sid
         \<and> filter is_session_request (drop (length w) w2) = []"
proof -
  from perform_stored [OF stored, of w srv call1] failing
  obtain req1 where c1: "sessionId c1 = Some sid" and w1: "w1 = w @ [req1]"
    and n1: "\<not> is_session_request req1" by (auto simp: stored_effect_def)
  from perform_stored [OF c1 stored(2), of w1 srv call2] following
  have c2: "sessionId c2 = Some sid"
    and w2: "w2 = w1 \<or> (\<exists>req. w2 = w1 @ [req] \<and> \<not> is_session_request req)"
    by (auto simp: stored_effect_def)
  from w2 show ?thesis using c1 c2 w1 n1 by auto
qed

theorem session_kept_after_failure_witness:
  "perform gone_server (CallTypeText ''a'') (stale_client, [])
     = (Inl (WDARequestFailed 404 ''invalid session id''), stale_client,
        [\<lparr>http_method = ''POST'', url = ''http://localhost:8100/session/dead/wda/keys'',
          body = Some (KeysBody [''a''])\<rparr>])
   \<and> sessionId (fst (snd (perform gone_server (CallPressButton ''home'')
         (snd (perform gone_server (CallTypeText ''a'') (stale_client, [])))))) = Some ''dead''
   \<and> filter is_session_request (snd (snd (perform gone_server (CallPressButton ''home'')
         (snd (perform gone_server (CallTypeText ''a'') (stale_client, [])))))) = []"
proof -
  have s: "sessionId stale_client = Some ''dead''" "''dead'' \<noteq> []"
    by (simp_all add: stale_client_def)
  have f: "perform gone_server (CallTypeText ''a'') (stale_client, [])
     = (Inl (WDARequestFailed 404 ''invalid session id''), stale_client,
        [\<lparr>http_method = ''POST'', url = ''http://localhost:8100/session/dead/wda/keys'',
          body = Some (KeysBody [''a''])\<rparr>])"
    by (simp add: typeText_def ensureSession_def request_unit_def request_def
      gone_server_def stale_client_def new_client_def truthy_def)
  obtain r c2 w2 where n: "perform gone_server (CallPressButton ''home'')
      (stale_client, [\<lparr>http_method = ''POST'', url = ''http://localhost:8100/session/dead/wda/keys'',
          body = Some (KeysBody [''a''])\<rparr>]) = (r, c2, w2)"
    by (metis prod_cases3)
  from session_kept_after_failure [OF s f n] f n show ?thesis by simp
qed

subsection \<open>Properties of the touch handlers\<close>

lemma run_append:
  "run rect (xs @ ys) s =
     (let (s1, calls1) = run rect xs s; (s2, calls2) = run rect ys s1 in (s2, calls1 @ calls2))"
  by (induction xs arbitrary: s) (auto split: prod.splits)

lemma run_Cons_proj:
  "run rect (ev # evs) s =
     (fst (run rect evs (fst (dispatch rect ev s))),
      snd (dispatch rect ev s) @ snd (run rect evs (fst (dispatch rect ev s))))"
  by (simp split: prod.splits)




text \<open>A \<^verbatim>\<open>touchstart\<close> of a single finger, the usual beginning of a gesture, forgets every
  touch tracked before and calls nothing.\<close>

lemma onTouchStart_single:
  assumes "length (touches ev) = 1"
  shows "snd (onTouchStart rect ev h) = []
         \<and> activeTouches (fst (onTouchStart rect ev h)) = []
         \<and> hasOnMultiTouch (fst (onTouchStart rect ev h)) = hasOnMultiTouch h"
  using assms by (simp add: onTouchStart_def)






lemma dispatch_touch:
  "dispatch rect (TouchStartEvent e) (h, b) = ((fst (onTouchStart rect e h), b), snd (onTouchStart rect e h))"
  "dispatch rect (TouchMoveEvent e) (h, b) = ((fst (onTouchMove rect e h), b), snd (onTouchMove rect e h))"
  "dispatch rect (TouchEndEvent e) (h, b) = ((fst (onTouchEnd rect e h), b), snd (onTouchEnd rect e h))"
  by (simp_all split: prod.splits)




subsection \<open>Properties of the scroll buffer\<close>

lemma dispatch_frame: "dispatch rect AnimationFrame s = animationFrame s"
  by (cases s) simp

lemma epsilon_value: "epsilon = 7378697629483821 / 2 ^ 66"
  unfolding epsilon_def
  using rnd_eval [of "- 14" "1 / 10000"] by (simp add: round_even_def pow2_def Let_def)

lemma below_epsilon_zero: "below_epsilon (0, 0)"
  by (simp add: below_epsilon_def epsilon_value)

lemma onWheelEvent_effect:
  assumes "hasOnScroll h" and "raf_inv (h, b)"
  shows "hasOnScroll (fst (onWheelEvent rect e (h, b)))
         \<and> raf_inv (onWheelEvent rect e (h, b))
         \<and> scrollRafId (fst (onWheelEvent rect e (h, b))) \<noteq> None
         \<and> scrollBufferX (fst (onWheelEvent rect e (h, b)))
             = js_add (scrollBufferX h) (scroll_units (pixelDeltaX e))
         \<and> scrollBufferY (fst (onWheelEvent rect e (h, b)))
             = js_add (scrollBufferY h) (scroll_units (pixelDeltaY e))
         \<and> lastScrollX (fst (onWheelEvent rect e (h, b))) = fst (getNormalizedCoordsFromMouse rect e)
         \<and> lastScrollY (fst (onWheelEvent rect e (h, b))) = snd (getNormalizedCoordsFromMouse rect e)"
proof (cases "scrollRafId h")
  case None
  with assms show ?thesis
    by (simp add: onWheelEvent_def raf_inv_def requestAnimationFrame_def pixelDeltaX_def
        pixelDeltaY_def scroll_units_def Let_def)
next
  case (Some rafId)
  with assms show ?thesis
    by (simp add: onWheelEvent_def raf_inv_def pixelDeltaX_def pixelDeltaY_def scroll_units_def Let_def)
qed

lemma onWheelEvent_raf_inv: "raf_inv s \<Longrightarrow> raf_inv (onWheelEvent rect e s)"
proof (cases s)
  case (Pair h b)
  assume inv: "raf_inv s"
  show ?thesis
  proof (cases "hasOnScroll h")
    case True
    with inv Pair onWheelEvent_effect [of h b rect e] show ?thesis by simp
  next
    case False
    with inv Pair show ?thesis by (simp add: onWheelEvent_def)
  qed
qed

lemma processScrollBuffer_effect:
  "scrollRafId (fst (processScrollBuffer h)) = None
   \<and> hasOnScroll (fst (processScrollBuffer h)) = hasOnScroll h
   \<and> lastScrollX (fst (processScrollBuffer h)) = lastScrollX h
   \<and> lastScrollY (fst (processScrollBuffer h)) = lastScrollY h
   \<and> (if below_epsilon (scrollBufferX h, scrollBufferY h)
       then snd (processScrollBuffer h) = []
            \<and> scrollBufferX (fst (processScrollBuffer h)) = scrollBufferX h
            \<and> scrollBufferY (fst (processScrollBuffer h)) = scrollBufferY h
       else snd (processScrollBuffer h)
              = [OnScroll (lastScrollX h) (lastScrollY h) (scrollBufferX h) (scrollBufferY h)]
            \<and> scrollBufferX (fst (processScrollBuffer h)) = 0
            \<and> scrollBufferY (fst (processScrollBuffer h)) = 0)"
  by (auto simp: processScrollBuffer_def below_epsilon_def epsilon_def Let_def)

lemma processScrollBuffer_length: "length (snd (processScrollBuffer h)) \<le> 1"
  by (simp add: processScrollBuffer_def Let_def)

lemma runCallbacks_single:
  "runCallbacks [rafId] h = (fst (processScrollBuffer h), snd (processScrollBuffer h))"
  by (simp split: prod.splits)

lemma animationFrame_pending:
  assumes "raf_inv (h, b)" and "scrollRafId h \<noteq> None"
  shows "animationFrame (h, b)
           = ((fst (processScrollBuffer h), b\<lparr>rafQueue := []\<rparr>), snd (processScrollBuffer h))"
proof -
  from assms obtain rafId where q: "rafQueue b = [rafId]" by (auto simp: raf_inv_def)
  show ?thesis
    by (simp add: animationFrame_def q runCallbacks_single case_prod_beta del: runCallbacks.simps)
qed

lemma animationFrame_idle:
  assumes "raf_inv (h, b)" and "scrollRafId h = None"
  shows "animationFrame (h, b) = ((h, b\<lparr>rafQueue := []\<rparr>), [])"
  using assms by (simp add: animationFrame_def raf_inv_def)

lemma animationFrame_effect:
  assumes "raf_inv (h, b)"
  shows "raf_inv (fst (animationFrame (h, b)))
         \<and> length (snd (animationFrame (h, b))) \<le> 1
         \<and> (scrollRafId h \<noteq> None \<longrightarrow>
              snd (animationFrame (h, b)) = snd (processScrollBuffer h))"
proof (cases "scrollRafId h")
  case None
  with assms show ?thesis by (simp add: animationFrame_idle raf_inv_def)
next
  case (Some rafId)
  then have p: "scrollRafId h \<noteq> None" by simp
  show ?thesis
    unfolding animationFrame_pending [OF assms p]
    using processScrollBuffer_effect [of h] processScrollBuffer_length [of h]
    by (simp add: raf_inv_def)
qed

lemma touch_handlers_keep_raf:
  "scrollRafId (fst (onTouchStart rect e h)) = scrollRafId h"
  "scrollRafId (fst (onTouchMove rect e h)) = scrollRafId h"
  "scrollRafId (fst (onTouchEnd rect e h)) = scrollRafId h"
  by (simp_all add: onTouchStart_def onTouchMove_def onTouchEnd_def Let_def split: prod.splits)

lemma onTouchStart_keeps_scroll:
  "hasOnScroll (fst (onTouchStart rect e h)) = hasOnScroll h
   \<and> scrollBufferX (fst (onTouchStart rect e h)) = scrollBufferX h
   \<and> scrollBufferY (fst (onTouchStart rect e h)) = scrollBufferY h
   \<and> lastScrollX (fst (onTouchStart rect e h)) = lastScrollX h
   \<and> lastScrollY (fst (onTouchStart rect e h)) = lastScrollY h"
  by (simp add: onTouchStart_def Let_def)

lemma onTouchMove_keeps_scroll:
  "hasOnScroll (fst (onTouchMove rect e h)) = hasOnScroll h
   \<and> scrollBufferX (fst (onTouchMove rect e h)) = scrollBufferX h
   \<and> scrollBufferY (fst (onTouchMove rect e h)) = scrollBufferY h
   \<and> lastScrollX (fst (onTouchMove rect e h)) = lastScrollX h
   \<and> lastScrollY (fst (onTouchMove rect e h)) = lastScrollY h"
  by (simp add: onTouchMove_def Let_def)

lemma onTouchEnd_keeps_scroll:
  "hasOnScroll (fst (onTouchEnd rect e h)) = hasOnScroll h
   \<and> scrollBufferX (fst (onTouchEnd rect e h)) = scrollBufferX h
   \<and> scrollBufferY (fst (onTouchEnd rect e h)) = scrollBufferY h
   \<and> lastScrollX (fst (onTouchEnd rect e h)) = lastScrollX h
   \<and> lastScrollY (fst (onTouchEnd rect e h)) = lastScrollY h"
  by (simp add: onTouchEnd_def Let_def split: prod.splits)

lemma touch_handlers_no_scroll:
  "filter is_scroll_call (snd (onTouchStart rect e h)) = []"
  "filter is_scroll_call (snd (onTouchMove rect e h)) = []"
  "filter is_scroll_call (snd (onTouchEnd rect e h)) = []"
  by (simp_all add: onTouchStart_def onTouchMove_def onTouchEnd_def Let_def is_scroll_call_def
      split: prod.splits)

lemma dispatch_scroll:
  assumes "raf_inv s"
  shows "raf_inv (fst (dispatch rect ev s))
         \<and> length (filter is_scroll_call (snd (dispatch rect ev s)))
             \<le> (if ev = AnimationFrame then 1 else 0)"
proof (cases s)
  case (Pair h b)
  show ?thesis
  proof (cases ev)
    case (TouchStartEvent e)
    with assms Pair show ?thesis
      by (simp add: dispatch_touch raf_inv_def touch_handlers_keep_raf touch_handlers_no_scroll
          del: dispatch.simps)
  next
    case (TouchMoveEvent e)
    with assms Pair show ?thesis
      by (simp add: dispatch_touch raf_inv_def touch_handlers_keep_raf touch_handlers_no_scroll
          del: dispatch.simps)
  next
    case (TouchEndEvent e)
    with assms Pair show ?thesis
      by (simp add: dispatch_touch raf_inv_def touch_handlers_keep_raf touch_handlers_no_scroll
          del: dispatch.simps)
  next
    case (WheelEv e)
    with assms Pair onWheelEvent_raf_inv [of s rect e] show ?thesis by simp
  next
    case AnimationFrame
    have l: "length (snd (animationFrame (h, b))) \<le> 1"
      and i: "raf_inv (fst (animationFrame (h, b)))"
      using animationFrame_effect [of h b] assms Pair by simp_all
    have "length (filter is_scroll_call (snd (animationFrame (h, b)))) \<le> 1"
      by (rule le_trans [OF length_filter_le l])
    with i show ?thesis using AnimationFrame Pair by simp
  qed
qed

lemma run_scroll_bound:
  assumes "raf_inv s"
  shows "length (filter is_scroll_call (snd (run rect evs s))) \<le> count_list evs AnimationFrame"
  using assms
proof (induction evs arbitrary: s)
  case Nil
  then show ?case by simp
next
  case (Cons ev evs)
  note d = dispatch_scroll [OF Cons.prems, of rect ev]
  note ih = Cons.IH [OF conjunct1 [OF d]]
  show ?case using d ih
    by (cases "ev = AnimationFrame") (simp_all add: run_Cons_proj del: run.simps dispatch.simps)
qed

text \<open>The handler between two events: the queued callback is the one it holds, and when
  none is queued the buffer is too small to be flushed.\<close>

lemma dispatch_scroll_calls:
  assumes "hasOnScroll h" and "raf_inv (h, b)"
    and "scrollRafId h = None \<longrightarrow> below_epsilon (scrollBufferX h, scrollBufferY h)"
  shows "hasOnScroll (fst (fst (dispatch rect ev (h, b))))
         \<and> raf_inv (fst (dispatch rect ev (h, b)))
         \<and> (scrollRafId (fst (fst (dispatch rect ev (h, b)))) = None \<longrightarrow>
              below_epsilon (scrollBufferX (fst (fst (dispatch rect ev (h, b)))),
                             scrollBufferY (fst (fst (dispatch rect ev (h, b))))))
         \<and> scroll_calls rect (lastScrollX h, lastScrollY h) (scrollBufferX h, scrollBufferY h) (ev # evs)
             = filter is_scroll_call (snd (dispatch rect ev (h, b)))
               @ scroll_calls rect
                   (lastScrollX (fst (fst (dispatch rect ev (h, b)))),
                    lastScrollY (fst (fst (dispatch rect ev (h, b)))))
                   (scrollBufferX (fst (fst (dispatch rect ev (h, b)))),
                    scrollBufferY (fst (fst (dispatch rect ev (h, b))))) evs"
proof (cases ev)
  case (TouchStartEvent e)
  with assms show ?thesis
    using onTouchStart_keeps_scroll [of rect e h]
    by (simp add: dispatch_touch raf_inv_def touch_handlers_keep_raf touch_handlers_no_scroll
        del: dispatch.simps)
next
  case (TouchMoveEvent e)
  with assms show ?thesis
    using onTouchMove_keeps_scroll [of rect e h]
    by (simp add: dispatch_touch raf_inv_def touch_handlers_keep_raf touch_handlers_no_scroll
        del: dispatch.simps)
next
  case (TouchEndEvent e)
  with assms show ?thesis
    using onTouchEnd_keeps_scroll [of rect e h]
    by (simp add: dispatch_touch raf_inv_def touch_handlers_keep_raf touch_handlers_no_scroll
        del: dispatch.simps)
next
  case (WheelEv e)
  with onWheelEvent_effect [OF assms(1,2), of rect e] show ?thesis by auto
next
  case AnimationFrame
  show ?thesis
  proof (cases "scrollRafId h")
    case None
    with assms have "below_epsilon (scrollBufferX h, scrollBufferY h)" by simp
    with None assms AnimationFrame show ?thesis
      by (simp add: animationFrame_idle raf_inv_def)
  next
    case (Some rafId)
    then have p: "scrollRafId h \<noteq> None" by simp
    show ?thesis
      using processScrollBuffer_effect [of h] assms(1) AnimationFrame
      by (simp add: animationFrame_pending [OF assms(2) p] raf_inv_def is_scroll_call_def
          below_epsilon_zero split: if_splits)
  qed
qed

lemma run_scroll_calls:
  assumes "hasOnScroll h" and "raf_inv (h, b)"
    and "scrollRafId h = None \<longrightarrow> below_epsilon (scrollBufferX h, scrollBufferY h)"
  shows "filter is_scroll_call (snd (run rect evs (h, b)))
           = scroll_calls rect (lastScrollX h, lastScrollY h) (scrollBufferX h, scrollBufferY h) evs"
  using assms
proof (induction evs arbitrary: h b)
  case Nil
  then show ?case by simp
next
  case (Cons ev evs)
  obtain h1 b1 where s1: "fst (dispatch rect ev (h, b)) = (h1, b1)"
    by (cases "fst (dispatch rect ev (h, b))")
  note d = dispatch_scroll_calls [OF Cons.prems, of rect ev evs]
  from d s1 have inv: "hasOnScroll h1" "raf_inv (h1, b1)"
    "scrollRafId h1 = None \<longrightarrow> below_epsilon (scrollBufferX h1, scrollBufferY h1)"
    by simp_all
  note ih = Cons.IH [OF inv]
  from d s1 have step:
    "scroll_calls rect (lastScrollX h, lastScrollY h) (scrollBufferX h, scrollBufferY h) (ev # evs)
       = filter is_scroll_call (snd (dispatch rect ev (h, b)))
         @ scroll_calls rect (lastScrollX h1, lastScrollY h1) (scrollBufferX h1, scrollBufferY h1) evs"
    by simp
  show ?case
    unfolding step using ih s1 by (simp add: run_Cons_proj del: run.simps dispatch.simps)
qed

lemma run_scroll_inv:
  assumes "hasOnScroll h" and "raf_inv (h, b)"
    and "scrollRafId h = None \<longrightarrow> below_epsilon (scrollBufferX h, scrollBufferY h)"
  shows "hasOnScroll (fst (fst (run rect evs (h, b))))
         \<and> raf_inv (fst (run rect evs (h, b)))
         \<and> (scrollRafId (fst (fst (run rect evs (h, b)))) = None \<longrightarrow>
              below_epsilon (scrollBufferX (fst (fst (run rect evs (h, b)))),
                             scrollBufferY (fst (fst (run rect evs (h, b))))))"
  using assms
proof (induction evs arbitrary: h b)
  case Nil
  then show ?case by simp
next
  case (Cons ev evs)
  obtain h1 b1 where s1: "fst (dispatch rect ev (h, b)) = (h1, b1)"
    by (cases "fst (dispatch rect ev (h, b))")
  note d = dispatch_scroll_calls [OF Cons.prems, of rect ev evs]
  from d s1 have inv: "hasOnScroll h1" "raf_inv (h1, b1)"
    "scrollRafId h1 = None \<longrightarrow> below_epsilon (scrollBufferX h1, scrollBufferY h1)"
    by simp_all
  note ih = Cons.IH [OF inv]
  show ?case using ih s1 by (simp add: run_Cons_proj del: run.simps dispatch.simps)
qed

lemma run_wheels:
  assumes "hasOnScroll h" and "raf_inv (h, b)"
  shows "snd (run rect (map WheelEv ws) (h, b)) = []
         \<and> hasOnScroll (fst (fst (run rect (map WheelEv ws) (h, b))))
         \<and> raf_inv (fst (run rect (map WheelEv ws) (h, b)))
         \<and> (ws \<noteq> [] \<longrightarrow> scrollRafId (fst (fst (run rect (map WheelEv ws) (h, b)))) \<noteq> None)
         \<and> scrollBufferX (fst (fst (run rect (map WheelEv ws) (h, b))))
             = accumulated (scrollBufferX h) (map pixelDeltaX ws)
         \<and> scrollBufferY (fst (fst (run rect (map WheelEv ws) (h, b))))
             = accumulated (scrollBufferY h) (map pixelDeltaY ws)
         \<and> (ws \<noteq> [] \<longrightarrow>
              lastScrollX (fst (fst (run rect (map WheelEv ws) (h, b))))
                = fst (getNormalizedCoordsFromMouse rect (last ws))
              \<and> lastScrollY (fst (fst (run rect (map WheelEv ws) (h, b))))
                = snd (getNormalizedCoordsFromMouse rect (last ws)))"
  using assms
proof (induction ws arbitrary: h b)
  case Nil
  then show ?case by (simp add: accumulated_def)
next
  case (Cons e ws)
  obtain h1 b1 where w: "onWheelEvent rect e (h, b) = (h1, b1)" by (cases "onWheelEvent rect e (h, b)")
  from onWheelEvent_effect [OF Cons.prems, of rect e] w
  have h1: "hasOnScroll h1" "raf_inv (h1, b1)" "scrollRafId h1 \<noteq> None"
    "scrollBufferX h1 = js_add (scrollBufferX h) (scroll_units (pixelDeltaX e))"
    "scrollBufferY h1 = js_add (scrollBufferY h) (scroll_units (pixelDeltaY e))"
    "lastScrollX h1 = fst (getNormalizedCoordsFromMouse rect e)"
    "lastScrollY h1 = snd (getNormalizedCoordsFromMouse rect e)"
    by simp_all
  note ih = Cons.IH [OF h1(1,2)]
  have step: "run rect (map WheelEv (e # ws)) (h, b)
              = (fst (run rect (map WheelEv ws) (h1, b1)), snd (run rect (map WheelEv ws) (h1, b1)))"
    by (simp add: run_Cons_proj w del: run.simps)
  show ?case
  proof (cases "ws = []")
    case True
    with h1 show ?thesis unfolding step by (simp add: accumulated_def)
  next
    case False
    with ih h1 show ?thesis unfolding step by (simp add: accumulated_def)
  qed
qed

lemma run_burst:
  assumes hs: "hasOnScroll h" and inv: "raf_inv (h, b)" and ne: "ws \<noteq> []"
  shows "snd (run rect (map WheelEv ws) (h, b)) = []
         \<and> (let sx = accumulated (scrollBufferX h) (map pixelDeltaX ws);
            sy = accumulated (scrollBufferY h) (map pixelDeltaY ws);
            res = run rect (map WheelEv ws @ [AnimationFrame]) (h, b)
        in if below_epsilon (sx, sy)
           then snd res = []
                \<and> scrollBufferX (fst (fst res)) = sx \<and> scrollBufferY (fst (fst res)) = sy
           else snd res = [OnScroll (fst (getNormalizedCoordsFromMouse rect (last ws)))
                                    (snd (getNormalizedCoordsFromMouse rect (last ws))) sx sy]
                \<and> scrollBufferX (fst (fst res)) = 0 \<and> scrollBufferY (fst (fst res)) = 0)"
proof -
  note w = run_wheels [OF hs inv, of rect ws]
  let ?s1 = "fst (run rect (map WheelEv ws) (h, b))"
  from w ne have pending: "scrollRafId (fst ?s1) \<noteq> None" and inv1: "raf_inv (fst ?s1, snd ?s1)"
    by simp_all
  have "run rect (map WheelEv ws @ [AnimationFrame]) (h, b) = animationFrame ?s1"
    using w by (simp add: run_append run_Cons_proj dispatch_frame case_prod_beta
                     del: run.simps(2) dispatch.simps)
  also have "\<dots> = animationFrame (fst ?s1, snd ?s1)" by simp
  also note animationFrame_pending [OF inv1 pending]
  finally have res: "run rect (map WheelEv ws @ [AnimationFrame]) (h, b)
          = ((fst (processScrollBuffer (fst ?s1)), (snd ?s1)\<lparr>rafQueue := []\<rparr>),
             snd (processScrollBuffer (fst ?s1)))" .
  show ?thesis
    unfolding Let_def res
    using w ne processScrollBuffer_effect [of "fst ?s1"] by (simp split: if_splits)
qed

lemma scroll_inv_new: "raf_inv (new_handler, new_browser)"
  by (simp add: raf_inv_def new_handler_def new_browser_def)

lemmas scroll_eval =
  scroll_units_def pixelDeltaX_def pixelDeltaY_def accumulated_def wheel_def canvas_rect_def
  getNormalizedCoordsFromMouse_def js_add_def js_sub_def js_mul_def js_div_def
  rnd_zero rnd_one rnd_numeral rnd_minus rnd_scroll_values below_epsilon_def epsilon_value

subsection \<open>Claim C5\<close>



subsection \<open>Claim C8\<close>

text \<open>
  C8 says that the flushed deltas equal the accumulated pixel deltas divided by 200 and
  sign-inverted. The handler divides each event's delta by 200 and adds the quotients in
  double arithmetic, and that is not the quotient of the sum: after wheel events of 20
  and of 40 pixels the frame flushes \<^verbatim>\<open>-0.30000000000000004\<close>, one step of the doubles
  away from \<^verbatim>\<open>-0.3\<close>, which is what 60 pixels in one event give.
\<close>

theorem scroll_sum_counterexample:
  "snd (run canvas_rect [WheelEv (wheel 400 300 0 20 0), WheelEv (wheel 400 300 0 40 0), AnimationFrame]
         (new_handler, new_browser))
     = [OnScroll (1 / 2) (1 / 2) 0 (- (1351079888211149 / 4503599627370496))]
   \<and> scroll_units (20 + 40) = - (5404319552844595 / 18014398509481984)
   \<and> snd (run canvas_rect [WheelEv (wheel 400 300 0 20 0), WheelEv (wheel 400 300 0 40 0), AnimationFrame]
         (new_handler, new_browser))
     \<noteq> [OnScroll (1 / 2) (1 / 2) 0 (scroll_units (20 + 40))]"
proof -
  have hs: "hasOnScroll new_handler" by (simp add: new_handler_def)
  from run_burst [OF hs scroll_inv_new, of "[wheel 400 300 0 20 0, wheel 400 300 0 40 0]" canvas_rect]
  have flushed: "snd (run canvas_rect
               [WheelEv (wheel 400 300 0 20 0), WheelEv (wheel 400 300 0 40 0), AnimationFrame]
               (new_handler, new_browser))
          = [OnScroll (1 / 2) (1 / 2) 0 (- (1351079888211149 / 4503599627370496))]"
    by (simp add: Let_def new_handler_def scroll_eval del: run.simps dispatch.simps)
  have quotient: "scroll_units (20 + 40) = - (5404319552844595 / 18014398509481984)"
    by (simp add: scroll_eval)
  show ?thesis unfolding flushed quotient by simp
qed

text \<open>
  C8, as the code has it. Wheel events call the scroll callback never; they add to the
  buffer and queue at most one animation frame callback, so over any sequence of events,
  from any state in which the queued callback is the one the handler holds (the
  constructor's state is one), the number of scroll callbacks is at most the number of
  animation frames. Between two events the handler is in a state where, besides, a
  callback is queued unless the buffer is too small to be flushed: the constructor's state
  is one, and every event leads from such a state to such a state. From such a state the
  scroll callbacks of any sequence of events are those of accumulate and flush: every
  wheel event adds its pixel deltas, each negated and divided by 200, to the accumulated
  deltas by a rounded addition; every animation frame calls the callback once, at the
  position of the last wheel event and with the accumulated deltas, and starts again from
  zero, unless both accumulated magnitudes are at or below the epsilon (the double
  0.0001), in which case it calls nothing and what is accumulated stays for the next
  frame. In particular, for one burst of wheel events and the frame after it, from any
  buffer: the frame flushes what the burst has accumulated on top of the buffer and leaves
  the buffer at zero, or it calls nothing and leaves the buffer as accumulated.
\<close>

theorem scroll_accumulate_and_flush:
  "(raf_inv s \<longrightarrow>
      length (filter is_scroll_call (snd (run rect evs s))) \<le> count_list evs AnimationFrame)
   \<and> (hasOnScroll h \<and> raf_inv (h, b)
        \<and> (scrollRafId h = None \<longrightarrow> below_epsilon (scrollBufferX h, scrollBufferY h)) \<longrightarrow>
        filter is_scroll_call (snd (run rect evs (h, b)))
          = scroll_calls rect (lastScrollX h, lastScrollY h) (scrollBufferX h, scrollBufferY h) evs
        \<and> (let after = fst (run rect evs (h, b))
            in hasOnScroll (fst after) \<and> raf_inv after
               \<and> (scrollRafId (fst after) = None \<longrightarrow>
                    below_epsilon (scrollBufferX (fst after), scrollBufferY (fst after)))))
   \<and> (hasOnScroll h \<and> raf_inv (h, b) \<and> ws \<noteq> [] \<longrightarrow>
        snd (run rect (map WheelEv ws) (h, b)) = []
        \<and> (let sx = accumulated (scrollBufferX h) (map pixelDeltaX ws);
                sy = accumulated (scrollBufferY h) (map pixelDeltaY ws);
                res = run rect (map WheelEv ws @ [AnimationFrame]) (h, b)
            in if below_epsilon (sx, sy)
               then snd res = []
                    \<and> scrollBufferX (fst (fst res)) = sx \<and> scrollBufferY (fst (fst res)) = sy
               else snd res = [OnScroll (fst (getNormalizedCoordsFromMouse rect (last ws)))
                                        (snd (getNormalizedCoordsFromMouse rect (last ws))) sx sy]
                    \<and> scrollBufferX (fst (fst res)) = 0 \<and> scrollBufferY (fst (fst res)) = 0))"
proof (intro conjI impI)
  assume "raf_inv s"
  then show "length (filter is_scroll_call (snd (run rect evs s))) \<le> count_list evs AnimationFrame"
    by (rule run_scroll_bound)
next
  assume "hasOnScroll h \<and> raf_inv (h, b)
        \<and> (scrollRafId h = None \<longrightarrow> below_epsilon (scrollBufferX h, scrollBufferY h))"
  then show "filter is_scroll_call (snd (run rect evs (h, b)))
          = scroll_calls rect (lastScrollX h, lastScrollY h) (scrollBufferX h, scrollBufferY h) evs"
    by (intro run_scroll_calls) simp_all
next
  assume "hasOnScroll h \<and> raf_inv (h, b)
        \<and> (scrollRafId h = None \<longrightarrow> below_epsilon (scrollBufferX h, scrollBufferY h))"
  then show "let after = fst (run rect evs (h, b))
            in hasOnScroll (fst after) \<and> raf_inv after
               \<and> (scrollRafId (fst after) = None \<longrightarrow>
                    below_epsilon (scrollBufferX (fst after), scrollBufferY (fst after)))"
    unfolding Let_def by (intro run_scroll_inv) simp_all
next
  assume a: "hasOnScroll h \<and> raf_inv (h, b) \<and> ws \<noteq> []"
  then have hs: "hasOnScroll h" and inv: "raf_inv (h, b)" by simp_all
  note w = run_wheels [OF hs inv, of rect ws]
  from w show "snd (run rect (map WheelEv ws) (h, b)) = []" by simp
next
  assume a: "hasOnScroll h \<and> raf_inv (h, b) \<and> ws \<noteq> []"
  then show "let sx = accumulated (scrollBufferX h) (map pixelDeltaX ws);
            sy = accumulated (scrollBufferY h) (map pixelDeltaY ws);
            res = run rect (map WheelEv ws @ [AnimationFrame]) (h, b)
        in if below_epsilon (sx, sy)
           then snd res = []
                \<and> scrollBufferX (fst (fst res)) = sx \<and> scrollBufferY (fst (fst res)) = sy
           else snd res = [OnScroll (fst (getNormalizedCoordsFromMouse rect (last ws)))
                                    (snd (getNormalizedCoordsFromMouse rect (last ws))) sx sy]
                \<and> scrollBufferX (fst (fst res)) = 0 \<and> scrollBufferY (fst (fst res)) = 0"
    using run_burst [of h b ws rect] by simp
qed

text \<open>Two wheel events of 100 pixels and of one page, a frame, a wheel event of 50 pixels
  elsewhere, a frame, a wheel event of 0.02 pixels (just at the epsilon, once divided), two
  frames, a wheel event of 25 pixels and a frame: the second flush has the 50 pixels only,
  and the third has what the suppressed frames kept.\<close>

theorem scroll_accumulate_and_flush_witness:
  "filter is_scroll_call
     (snd (run canvas_rect
            [WheelEv (wheel 400 300 0 100 0), WheelEv (wheel 400 300 0 1 2), AnimationFrame,
             WheelEv (wheel 200 150 0 50 0), AnimationFrame,
             WheelEv (wheel 400 300 0 (rnd (1 / 50)) 0), AnimationFrame, AnimationFrame,
             WheelEv (wheel 400 300 0 25 0), AnimationFrame]
            (new_handler, new_browser)))
     = [OnScroll (1 / 2) (1 / 2) 0 (- 1), OnScroll (1 / 4) (1 / 4) 0 (- (1 / 4)),
        OnScroll (1 / 2) (1 / 2) 0 (- (563400313384049 / 4503599627370496))]
   \<and> length (filter is_scroll_call
        (snd (run canvas_rect [WheelEv (wheel 400 300 0 100 0), WheelEv (wheel 400 300 0 1 2)]
               (new_handler, new_browser)))) \<le> 0
   \<and> snd (run canvas_rect [WheelEv (wheel 400 300 0 (rnd (1 / 50)) 0), AnimationFrame]
            (new_handler, new_browser)) = []
   \<and> scrollBufferY (fst (fst (run canvas_rect
        [WheelEv (wheel 400 300 0 (rnd (1 / 50)) 0), AnimationFrame] (new_handler, new_browser))))
       = - (7378697629483821 / 73786976294838206464)
   \<and> snd (run canvas_rect [WheelEv (wheel 400 300 0 100 0), WheelEv (wheel 400 300 0 1 2), AnimationFrame]
            (new_handler, new_browser)) = [OnScroll (1 / 2) (1 / 2) 0 (- 1)]
   \<and> scrollBufferY (fst (fst (run canvas_rect
        [WheelEv (wheel 400 300 0 100 0), WheelEv (wheel 400 300 0 1 2), AnimationFrame]
        (new_handler, new_browser)))) = 0"
proof -
  note inv = scroll_inv_new
  have hs: "hasOnScroll new_handler" "scrollRafId new_handler = None"
    "scrollBufferX new_handler = 0" "scrollBufferY new_handler = 0"
    "lastScrollX new_handler = 0" "lastScrollY new_handler = 0"
    by (simp_all add: new_handler_def)
  have z: "below_epsilon (0, 0)" by (rule below_epsilon_zero)
  from scroll_accumulate_and_flush
         [of "(new_handler, new_browser)" canvas_rect
             "[WheelEv (wheel 400 300 0 100 0), WheelEv (wheel 400 300 0 1 2), AnimationFrame,
               WheelEv (wheel 200 150 0 50 0), AnimationFrame,
               WheelEv (wheel 400 300 0 (rnd (1 / 50)) 0), AnimationFrame, AnimationFrame,
               WheelEv (wheel 400 300 0 25 0), AnimationFrame]"
             new_handler new_browser "[wheel 400 300 0 (rnd (1 / 50)) 0]"] inv hs z
  have one: "filter is_scroll_call
     (snd (run canvas_rect
            [WheelEv (wheel 400 300 0 100 0), WheelEv (wheel 400 300 0 1 2), AnimationFrame,
             WheelEv (wheel 200 150 0 50 0), AnimationFrame,
             WheelEv (wheel 400 300 0 (rnd (1 / 50)) 0), AnimationFrame, AnimationFrame,
             WheelEv (wheel 400 300 0 25 0), AnimationFrame]
            (new_handler, new_browser)))
     = [OnScroll (1 / 2) (1 / 2) 0 (- 1), OnScroll (1 / 4) (1 / 4) 0 (- (1 / 4)),
        OnScroll (1 / 2) (1 / 2) 0 (- (563400313384049 / 4503599627370496))]"
    and two: "snd (run canvas_rect [WheelEv (wheel 400 300 0 (rnd (1 / 50)) 0), AnimationFrame]
            (new_handler, new_browser)) = []"
    and three: "scrollBufferY (fst (fst (run canvas_rect
        [WheelEv (wheel 400 300 0 (rnd (1 / 50)) 0), AnimationFrame] (new_handler, new_browser))))
       = - (7378697629483821 / 73786976294838206464)"
    by (simp_all add: Let_def scroll_eval del: run.simps dispatch.simps)
  from scroll_accumulate_and_flush
         [of "(new_handler, new_browser)" canvas_rect
             "[WheelEv (wheel 400 300 0 100 0), WheelEv (wheel 400 300 0 1 2)]"
             new_handler new_browser "[wheel 400 300 0 100 0, wheel 400 300 0 1 2]"] inv hs z
  have four: "length (filter is_scroll_call
        (snd (run canvas_rect [WheelEv (wheel 400 300 0 100 0), WheelEv (wheel 400 300 0 1 2)]
               (new_handler, new_browser)))) \<le> 0"
    and five: "snd (run canvas_rect [WheelEv (wheel 400 300 0 100 0), WheelEv (wheel 400 300 0 1 2), AnimationFrame]
            (new_handler, new_browser)) = [OnScroll (1 / 2) (1 / 2) 0 (- 1)]"
    and six: "scrollBufferY (fst (fst (run canvas_rect
        [WheelEv (wheel 400 300 0 100 0), WheelEv (wheel 400 300 0 1 2), AnimationFrame]
        (new_handler, new_browser)))) = 0"
    by (simp_all add: Let_def scroll_eval del: run.simps dispatch.simps)
  show ?thesis using one two three four five six by simp
qed

end
